theory Spec2Isabelle
  imports Main "HOL-Library.Sublist"
begin

section \<open>vawk: an awk-like VCF preprocessor (src/vawk.py)\<close>

text \<open>
  The program turns the user's awk-like script, with its \<open>I$KEY\<close> and \<open>S$NAME$FMT\<close>
  shorthand, into a gawk program, runs gawk on it and prints what gawk prints.

  Python strings are modelled as \<^typ>\<open>string\<close>: a list of code points below 256.
  Every exception the source can raise is a value of \<open>error\<close>; a function that can raise
  returns \<open>error + 'a\<close> with \<open>Inl\<close> the exception.
\<close>

subsection \<open>Exceptions\<close>

datatype error =
    IndexError          \<comment> \<open>a string or list is read out of range\<close>
  | re_error            \<comment> \<open>\<open>re.error\<close>: a pattern does not compile\<close>
  | SystemExit int      \<comment> \<open>\<open>exit(n)\<close>\<close>
  | IOError nat         \<comment> \<open>\<open>IOError\<close> (\<open>OSError\<close>) with its \<open>errno\<close>\<close>

subsection \<open>Character classes of Python's \<open>str\<close> and \<open>re\<close>\<close>

definition isspace :: "char \<Rightarrow> bool" where
  \<comment> \<open>\<open>str.isspace\<close>, which is also \<open>\s\<close> of a \<open>str\<close> pattern, below code point 256\<close>
  "isspace c = (let n = (of_char c :: nat) in
     (9 \<le> n \<and> n \<le> 13) \<or> (28 \<le> n \<and> n \<le> 32) \<or> n = 133 \<or> n = 160)"

definition isalnum_ascii :: "char \<Rightarrow> bool" where
  \<comment> \<open>\<open>[a-zA-Z0-9]\<close>\<close>
  "isalnum_ascii c = (let n = (of_char c :: nat) in
     (48 \<le> n \<and> n \<le> 57) \<or> (65 \<le> n \<and> n \<le> 90) \<or> (97 \<le> n \<and> n \<le> 122))"

definition isword :: "char \<Rightarrow> bool" where
  \<comment> \<open>\<open>\w\<close> of a \<open>str\<close> pattern: \<open>[a-zA-Z0-9_]\<close> and the alphanumeric code points
      of the range 128 to 255\<close>
  "isword c = (let n = (of_char c :: nat) in
     isalnum_ascii c \<or> n = 95 \<or> n = 170 \<or> n = 178 \<or> n = 179 \<or> n = 181 \<or> n = 185 \<or> n = 186
     \<or> (188 \<le> n \<and> n \<le> 190) \<or> (192 \<le> n \<and> n \<le> 214) \<or> (216 \<le> n \<and> n \<le> 246) \<or> 248 \<le> n)"

subsection \<open>String operations\<close>

definition strip :: "string \<Rightarrow> string" where
  \<comment> \<open>\<open>s.strip()\<close>\<close>
  "strip s = rev (dropWhile isspace (rev (dropWhile isspace s)))"

definition slice :: "string \<Rightarrow> nat \<Rightarrow> nat \<Rightarrow> string" where
  \<comment> \<open>\<open>s[a:b]\<close> for \<open>0 \<le> a\<close> and \<open>0 \<le> b\<close>\<close>
  "slice s a b = take (b - a) (drop a s)"

definition inner :: "string \<Rightarrow> string" where
  \<comment> \<open>\<open>s[1:-1]\<close>\<close>
  "inner s = butlast (tl s)"

subsection \<open>\<open>parse\<close>: the BEGIN, per-line and END portions\<close>

definition opener_at :: "string \<Rightarrow> string \<Rightarrow> bool" where
  \<comment> \<open>the pattern \<open>KW\s*{\<close> matches at the start of \<open>s\<close>\<close>
  "opener_at kw s = (prefix kw s \<and>
     (case dropWhile isspace (drop (length kw) s) of [] \<Rightarrow> False | c # _ \<Rightarrow> c = CHR ''{''))"

fun re_search_opener :: "string \<Rightarrow> string \<Rightarrow> nat option" where
  \<comment> \<open>\<open>re.search(r"KW\s*{", s).start()\<close>: the first index where the pattern matches;
      \<open>None\<close> where the source's \<open>.start()\<close> raises AttributeError\<close>
  "re_search_opener kw [] = None"
| "re_search_opener kw (c # s) =
     (if opener_at kw (c # s) then Some 0 else map_option Suc (re_search_opener kw s))"

function scan_block :: "string \<Rightarrow> nat \<Rightarrow> int \<Rightarrow> error + (nat \<times> int)" where
  \<comment> \<open>the \<open>while\<close> loop of \<open>parse\<close> from index \<open>b\<close> with counter \<open>op_brace\<close>: the index
      of the brace that brings the counter to zero, and the counter. The loop condition
      (\<open>begin == ""\<close>) holds at every test, since the only assignment is followed by
      \<open>break\<close>; \<open>raw[b]\<close> with \<open>b = len(raw)\<close> raises IndexError.\<close>
  "scan_block raw b op_brace =
     (if length raw \<le> b then Inl IndexError
      else if raw ! b = CHR ''{'' then scan_block raw (b + 1) (op_brace + 1)
      else if raw ! b = CHR ''}'' then
        (if op_brace - 1 = 0 then Inr (b, op_brace - 1)
         else scan_block raw (b + 1) (op_brace - 1))
      else scan_block raw (b + 1) op_brace)"
  by pat_completeness auto
termination
  by (relation "measure (\<lambda>(raw, b, op_brace). length raw - b)") auto

declare scan_block.simps [simp del]

definition get_block :: "string \<Rightarrow> string \<Rightarrow> int \<Rightarrow> error + (string \<times> string \<times> int)" where
  \<comment> \<open>one \<open>try\<close> block of \<open>parse\<close> and the assignment to \<open>raw\<close> after it, for the keyword
      \<open>kw\<close> (\<open>BEGIN\<close> with \<open>a = start + 5\<close>, \<open>END\<close> with \<open>a = start + 3\<close>): the block's
      text, the rest of \<open>raw\<close>, and \<open>op_brace\<close>. AttributeError (no opener) is caught and
      leaves the indices at \<open>[0, -1]\<close>, so \<open>raw\<close> is unchanged; IndexError is not caught.\<close>
  "get_block kw raw op_brace =
     (case re_search_opener kw raw of
        None \<Rightarrow> Inr ([], raw, op_brace)
      | Some i \<Rightarrow>
          (let a = i + length kw in
           case scan_block raw a op_brace of
             Inl e \<Rightarrow> Inl e
           | Inr (b, op_brace') \<Rightarrow>
               Inr (inner (strip (slice raw a (b + 1))), take i raw @ drop (b + 1) raw, op_brace')))"

definition wrap_perline :: "string \<Rightarrow> string" where
  \<comment> \<open>the last step of \<open>parse\<close>, on the remainder of \<open>raw\<close>\<close>
  "wrap_perline raw =
     (let perline = strip raw in
      if prefix ''{'' perline \<and> suffix ''}'' perline then inner perline
      else ''if ('' @ perline @ '') print ; '')"

definition parse :: "string \<Rightarrow> error + (string \<times> string \<times> string)" where
  "parse raw =
     (case get_block ''BEGIN'' raw 0 of
        Inl e \<Rightarrow> Inl e
      | Inr (begin, raw1, op_brace1) \<Rightarrow>
          (case get_block ''END'' raw1 op_brace1 of
             Inl e \<Rightarrow> Inl e
           | Inr (end, raw2, op_brace2) \<Rightarrow> Inr (begin, wrap_perline raw2, end)))"

subsection \<open>More string operations\<close>

abbreviation bslash :: char where
  "bslash \<equiv> CHR 0x5C"

abbreviation newline :: char where
  "newline \<equiv> CHR 0x0A"

fun join :: "string \<Rightarrow> string list \<Rightarrow> string" where
  \<comment> \<open>\<open>sep.join(xs)\<close>\<close>
  "join sep [] = []"
| "join sep [x] = x"
| "join sep (x # y # xs) = x @ sep @ join sep (y # xs)"

fun split_on :: "char \<Rightarrow> string \<Rightarrow> string list" where
  \<comment> \<open>\<open>s.split(c)\<close> for a separator of one character\<close>
  "split_on c [] = [[]]"
| "split_on c (x # xs) =
     (if x = c then [] # split_on c xs
      else (case split_on c xs of [] \<Rightarrow> [[x]] | t # ts \<Rightarrow> (x # t) # ts))"

definition replace_chr :: "char \<Rightarrow> string \<Rightarrow> string \<Rightarrow> string" where
  \<comment> \<open>\<open>s.replace(c, new)\<close> for a \<open>c\<close> of one character\<close>
  "replace_chr c new s = concat (map (\<lambda>x. if x = c then new else [x]) s)"

fun has_sub :: "string \<Rightarrow> string \<Rightarrow> bool" where
  \<comment> \<open>the literal text \<open>p\<close> occurs in \<open>s\<close>\<close>
  "has_sub p [] = (p = [])"
| "has_sub p (c # s) = (prefix p (c # s) \<or> has_sub p s)"

definition digit_chr :: "nat \<Rightarrow> char" where
  "digit_chr d = ''0123456789'' ! d"

fun str_nat :: "nat \<Rightarrow> string" where
  "str_nat n = (if n < 10 then [digit_chr n] else str_nat (n div 10) @ [digit_chr (n mod 10)])"

declare str_nat.simps [simp del]

definition str_int :: "int \<Rightarrow> string" where
  \<comment> \<open>\<open>str(i)\<close> of a Python \<open>int\<close>\<close>
  "str_int i = (if i < 0 then CHR ''-'' # str_nat (nat (- i)) else str_nat (nat i))"

subsection \<open>The regular expressions of \<open>vawk\<close>\<close>

text \<open>
  \<open>vawk\<close> scans the per-line text with two fixed patterns, \<open>[\W]I\$([\w]*)\<close> and
  \<open>[\W]S\$([a-zA-Z0-9_\-\.*^$]*)\<close>, and replaces with patterns it builds from the text it
  found. \<open>findall_ref\<close> is \<open>re.findall\<close> for the two fixed patterns: the matches are
  taken from left to right and do not overlap, and the result is the list of the groups.
\<close>

definition is_sample_chr :: "char \<Rightarrow> bool" where
  \<comment> \<open>\<open>[a-zA-Z0-9_\-\.*^$]\<close>\<close>
  "is_sample_chr c = (isalnum_ascii c \<or> c = CHR ''_'' \<or> c = CHR ''-'' \<or> c = CHR ''.''
     \<or> c = CHR ''*'' \<or> c = CHR ''^'' \<or> c = CHR ''$'')"

definition look_ahead :: "char \<Rightarrow> bool" where
  \<comment> \<open>the class of \<open>look_ahead = "(?![$_\-\.a-zA-Z0-9])"\<close>\<close>
  "look_ahead c = (c = CHR ''$'' \<or> c = CHR ''_'' \<or> c = CHR ''-'' \<or> c = CHR ''.''
     \<or> isalnum_ascii c)"

function findall_ref :: "char \<Rightarrow> (char \<Rightarrow> bool) \<Rightarrow> string \<Rightarrow> string list" where
  \<comment> \<open>\<open>re.findall(r"[\W]X\$(cls*)", s)\<close> for the sigil \<open>X\<close>\<close>
  "findall_ref sigil cls [] = []"
| "findall_ref sigil cls [c] = []"
| "findall_ref sigil cls [c, d] = []"
| "findall_ref sigil cls (c # d # e # s) =
     (if \<not> isword c \<and> d = sigil \<and> e = CHR ''$''
      then takeWhile cls s # findall_ref sigil cls (dropWhile cls s)
      else findall_ref sigil cls (d # e # s))"
  by pat_completeness auto
termination
  by (relation "measure (\<lambda>(sigil, cls, s). length s)")
     (auto simp: less_Suc_eq_le intro: le_trans [OF length_dropWhile_le])

text \<open>
  The patterns given to \<open>re.sub\<close> are concatenations of fixed text, of sample names with
  \<open>-\<close> and \<open>.\<close> escaped, of subfield names as they were typed, and of annotation keys.
  Their characters are word characters, \<open>-\<close>, \<open>.\<close>, \<open>*\<close>, \<open>^\<close> and a backslash before
  \<open>$\<close>, \<open>*\<close>, \<open>-\<close> or \<open>.\<close>. For such a pattern \<open>re_parse\<close> is the parser of \<open>re\<close>: an
  escaped character and a word character or \<open>-\<close> stand for themselves, \<open>.\<close> is any
  character but a newline, \<open>^\<close> is the start of the text, and \<open>*\<close> repeats the item
  before it, where \<open>re\<close> raises \<open>re.error\<close> if there is none to repeat (\<open>nothing to
  repeat\<close>) or it is repeated already (\<open>multiple repeat\<close>).
\<close>

datatype atom = Chr char | Dot

datatype item = One atom | Star atom | Bol

fun atom_ok :: "atom \<Rightarrow> char \<Rightarrow> bool" where
  "atom_ok (Chr a) c = (a = c)"
| "atom_ok Dot c = (c \<noteq> newline)"

fun re_parse_acc :: "item list \<Rightarrow> string \<Rightarrow> error + item list" where
  \<comment> \<open>\<open>acc\<close> holds the items read so far, the last one first\<close>
  "re_parse_acc acc [] = Inr (rev acc)"
| "re_parse_acc acc (c # s) =
     (if c = bslash then
        (case s of [] \<Rightarrow> Inl re_error | d # s' \<Rightarrow> re_parse_acc (One (Chr d) # acc) s')
      else if c = CHR ''*'' then
        (case acc of One a # acc' \<Rightarrow> re_parse_acc (Star a # acc') s | _ \<Rightarrow> Inl re_error)
      else if c = CHR ''.'' then re_parse_acc (One Dot # acc) s
      else if c = CHR ''^'' then re_parse_acc (Bol # acc) s
      else re_parse_acc (One (Chr c) # acc) s)"

definition re_parse :: "string \<Rightarrow> error + item list" where
  "re_parse p = re_parse_acc [] p"

fun re_match :: "bool \<Rightarrow> item list \<Rightarrow> bool \<Rightarrow> string \<Rightarrow> nat option" where
  \<comment> \<open>the match of the items at the start of the text, as the backtracking matcher of
      \<open>re\<close> finds it (a repetition takes as many characters as it can and gives them back
      one at a time): the number of characters matched. \<open>la\<close> says that the pattern ends
      with \<open>look_ahead\<close>; \<open>st\<close> that the text starts at the start of the whole string.\<close>
  "re_match la [] st s = (case s of [] \<Rightarrow> Some 0 | c # _ \<Rightarrow> if la \<and> look_ahead c then None else Some 0)"
| "re_match la (One a # is) st [] = None"
| "re_match la (One a # is) st (c # s) =
     (if atom_ok a c then map_option Suc (re_match la is False s) else None)"
| "re_match la (Bol # is) st s = (if st then re_match la is st s else None)"
| "re_match la (Star a # is) st [] = re_match la is st []"
| "re_match la (Star a # is) st (c # s) =
     (if atom_ok a c then
        (case re_match la (Star a # is) False s of
           Some n \<Rightarrow> Some (Suc n)
         | None \<Rightarrow> re_match la is st (c # s))
      else re_match la is st (c # s))"

function re_sub_scan :: "bool \<Rightarrow> item list \<Rightarrow> string \<Rightarrow> bool \<Rightarrow> string \<Rightarrow> string" where
  \<comment> \<open>the replacement loop of \<open>re.sub\<close>: at each position from left to right, a match is
      replaced by \<open>repl\<close> and the scan goes on after it. Every pattern of \<open>vawk\<close> starts
      with the literal \<open>S\<close> or \<open>I\<close>, so no match is empty.\<close>
  "re_sub_scan la is repl st [] = []"
| "re_sub_scan la is repl st (c # s) =
     (case re_match la is st (c # s) of
        Some (Suc n) \<Rightarrow> repl @ re_sub_scan la is repl False (drop n s)
      | _ \<Rightarrow> c # re_sub_scan la is repl False s)"
  by pat_completeness auto
termination
  by (relation "measure (\<lambda>(la, is, repl, st, s). length s)") auto

definition re_sub :: "bool \<Rightarrow> string \<Rightarrow> string \<Rightarrow> string \<Rightarrow> error + string" where
  \<comment> \<open>\<open>re.sub(pattern, repl, s)\<close>, and \<open>re.sub(pattern + look_ahead, repl, s)\<close> when \<open>la\<close>
      holds. No replacement text of \<open>vawk\<close> has a backslash, so \<open>repl\<close> is literal.\<close>
  "re_sub la pattern repl s =
     (case re_parse pattern of
        Inl e \<Rightarrow> Inl e
      | Inr is \<Rightarrow> Inr (re_sub_scan la is repl True s))"

subsection \<open>The process: standard output, the child, exceptions\<close>

text \<open>
  A \<open>world\<close> is what the program does to its surroundings: the text written to standard
  output, and the commands started with \<open>Popen\<close>. Standard output may stop accepting
  text: \<open>sink_room\<close> is the number of \<open>print\<close> calls it still accepts (\<open>None\<close>: any
  number), and a \<open>print\<close> beyond it raises \<open>IOError\<close> with \<open>sink_errno\<close> (32 is EPIPE,
  the reader has closed the pipe). A computation takes a world and returns the new world
  with either the exception raised or the value returned.
\<close>

record world =
  stdout :: string
  sink_room :: "nat option"
  sink_errno :: nat
  spawned :: "string list list"

type_synonym 'a io = "world \<Rightarrow> world \<times> (error + 'a)"

definition io_return :: "'a \<Rightarrow> 'a io" where
  "io_return x w = (w, Inr x)"

definition io_raise :: "error \<Rightarrow> 'a io" where
  "io_raise e w = (w, Inl e)"

definition io_lift :: "error + 'a \<Rightarrow> 'a io" where
  \<comment> \<open>a computation that only returns or raises\<close>
  "io_lift r w = (w, r)"

definition io_bind :: "'a io \<Rightarrow> ('a \<Rightarrow> 'b io) \<Rightarrow> 'b io" where
  \<comment> \<open>\<open>m\<close>, then \<open>f\<close> on its value; an exception of \<open>m\<close> ends the sequence\<close>
  "io_bind m f w = (case m w of (w', Inl e) \<Rightarrow> (w', Inl e) | (w', Inr x) \<Rightarrow> f x w')"

definition print :: "string \<Rightarrow> unit io" where
  \<comment> \<open>\<open>print(s)\<close>: \<open>s\<close> and a newline\<close>
  "print s w =
     (case sink_room w of
        None \<Rightarrow> (w\<lparr>stdout := stdout w @ s @ [newline]\<rparr>, Inr ())
      | Some 0 \<Rightarrow> (w, Inl (IOError (sink_errno w)))
      | Some (Suc n) \<Rightarrow> (w\<lparr>stdout := stdout w @ s @ [newline], sink_room := Some n\<rparr>, Inr ()))"

record child =
  child_out :: string   \<comment> \<open>the bytes the child writes to its standard output and error\<close>
  returncode :: int     \<comment> \<open>the status the child exits with\<close>

record env =
  set_iter :: "string list \<Rightarrow> string list"
    \<comment> \<open>the order in which Python iterates over \<open>set(xs)\<close>\<close>
  run_cmd :: "string list \<Rightarrow> error + child"
    \<comment> \<open>what the operating system does with a command: the child it runs, or the
        \<open>OSError\<close> of \<open>Popen\<close>\<close>

definition Popen :: "env \<Rightarrow> string list \<Rightarrow> child io" where
  \<comment> \<open>\<open>Popen(cmd, stdout=PIPE, stderr=STDOUT)\<close>\<close>
  "Popen ev cmd w =
     (case run_cmd ev cmd of
        Inl e \<Rightarrow> (w, Inl e)
      | Inr p \<Rightarrow> (w\<lparr>spawned := spawned w @ [cmd]\<rparr>, Inr p))"

subsection \<open>The class \<open>Sample\<close>\<close>

record sample =
  string_raw :: string
  name_raw :: string
  name_clean :: "string option"      \<comment> \<open>\<open>None\<close> until \<open>clean\<close> is called\<close>
  name_escaped :: "string option"
  field :: string

definition Sample_init :: "string \<Rightarrow> sample io" where
  \<comment> \<open>\<open>Sample(s)\<close>; \<open>exit(1)\<close> raises \<open>SystemExit(1)\<close>\<close>
  \<open>Sample_init s =
     (let s_tok = split_on CHR ''$'' s;
          self = \<lparr>string_raw = s, name_raw = s_tok ! 0, name_clean = None,
                  name_escaped = None, field = []\<rparr>
      in if length s_tok = 1 then io_return (self\<lparr>field := ''ALL''\<rparr>)
         else if length s_tok = 2 then io_return (self\<lparr>field := s_tok ! 1\<rparr>)
         else io_bind (print ''Error: format should be S$[ID]$[FMT]'')
                (\<lambda>_. io_raise (SystemExit 1)))\<close>

definition gremlin_list :: "char list" where
  "gremlin_list = [CHR ''-'', CHR ''.'']"

definition clean :: "sample \<Rightarrow> sample" where
  \<comment> \<open>\<open>self.clean()\<close>\<close>
  "clean self =
     (let (s, s_esc) =
            fold (\<lambda>gremlin (s, s_esc).
                    (replace_chr gremlin ''_'' s, replace_chr gremlin [bslash, gremlin] s_esc))
              gremlin_list (name_raw self, name_raw self)
      in self\<lparr>name_clean := Some s, name_escaped := Some s_esc\<rparr>)"

subsection \<open>\<open>vawk\<close>, stage by stage\<close>

text \<open>Lines 208 to 237: the annotation keys, their prologue and their renaming.\<close>

definition info_snippet :: "string \<Rightarrow> string" where
  \<open>info_snippet mykey =
     ''if (x[i]~"^'' @ mykey @ ''=" || x[i]=="'' @ mykey
     @ ''") { split(x[i],info,"="); if (length(info)==1) { INFO_'' @ mykey
     @ ''=1} else {INFO_'' @ mykey @ ''=info[2]} }''\<close>

definition info_prologue :: "int \<Rightarrow> string list \<Rightarrow> string" where
  \<open>info_prologue info_col info_keys =
     ''split($'' @ str_int info_col @ '',x,";"); for (i=1;i<=length(x);++i) { ''
     @ join '' '' (map info_snippet info_keys) @ ''} ''\<close>

fun info_rename :: "string list \<Rightarrow> string \<Rightarrow> error + string" where
  \<comment> \<open>\<open>for mykey in info_keys: perline = re.sub("I\$" + mykey, "INFO_" + mykey, perline)\<close>\<close>
  "info_rename [] perline = Inr perline"
| "info_rename (mykey # info_keys) perline =
     (case re_sub False (''I'' @ [bslash] @ ''$'' @ mykey) (''INFO_'' @ mykey) perline of
        Inl e \<Rightarrow> Inl e
      | Inr perline' \<Rightarrow> info_rename info_keys perline')"

definition info_stage :: "env \<Rightarrow> int \<Rightarrow> string \<Rightarrow> error + (string list \<times> string)" where
  \<comment> \<open>\<open>re.search("I\$([^\W]*)", perline)\<close> finds a match where \<open>I$\<close> occurs\<close>
  "info_stage ev info_col perline =
     (let info_keys = set_iter ev (findall_ref CHR ''I'' isword perline) in
      if has_sub ''I$'' perline then
        (case info_rename info_keys (info_prologue info_col info_keys @ perline) of
           Inl e \<Rightarrow> Inl e
         | Inr perline' \<Rightarrow> Inr (info_keys, perline'))
      else Inr (info_keys, perline))"

text \<open>Lines 241 to 253: the sample objects.\<close>

fun sample_loop :: "bool \<Rightarrow> string list \<Rightarrow> sample list \<Rightarrow> sample list io" where
  "sample_loop debug [] sample_queries = io_return sample_queries"
| "sample_loop debug (s # samples_raw) sample_queries =
     io_bind (Sample_init s) (\<lambda>s_obj.
       let s_obj = clean s_obj in
       io_bind
         (if debug then
            io_bind (print (''name_raw: '' @ name_raw s_obj)) (\<lambda>_.
            io_bind (print (''name_clean: '' @ the (name_clean s_obj))) (\<lambda>_.
            print (''name_escaped: '' @ the (name_escaped s_obj))))
          else io_return ())
         (\<lambda>_. sample_loop debug samples_raw (sample_queries @ [s_obj])))"

text \<open>Lines 256 to 319: one prologue for each sample object, each put before the text.\<close>

definition sample_prologue :: "int \<Rightarrow> sample \<Rightarrow> string" where
  \<open>sample_prologue samples_start_col s_obj =
     (if field s_obj = ''ALL'' then
        (if the (name_clean s_obj) = ''*'' then
           ''ALLSAMPLES_'' @ field s_obj @ ''=""; for (COL='' @ str_int samples_start_col
           @ '';COL<=NF-1;++COL) { ALLSAMPLES_'' @ field s_obj @ ''=ALLSAMPLES_'' @ field s_obj
           @ ''""$COL"'' @ [bslash] @ ''t" }; ALLSAMPLES_'' @ field s_obj @ ''=ALLSAMPLES_''
           @ field s_obj @ ''""$NF; ''
         else
           ''SAMPLE_'' @ join ''_'' [the (name_clean s_obj), field s_obj] @ ''=$SAMPLE["''
           @ name_raw s_obj @ ''"]; '')
      else
        (if the (name_clean s_obj) = ''*'' then
           ''ALLSAMPLES_'' @ field s_obj @ ''=""; for(i=1;i<=length(fmt);++i) { if (fmt[i]=="''
           @ field s_obj @ ''") { fmt_key=i; break } }; for (COL='' @ str_int samples_start_col
           @ '';COL<=NF-1;++COL) { split($COL,samp,":"); ALLSAMPLES_'' @ field s_obj
           @ ''=ALLSAMPLES_'' @ field s_obj @ ''""samp[fmt_key]"'' @ [bslash]
           @ ''t" }; split($NF,samp,":"); ALLSAMPLES_'' @ field s_obj @ ''=ALLSAMPLES_''
           @ field s_obj @ ''""samp[fmt_key]; ''
         else
           ''split($SAMPLE["'' @ name_raw s_obj
           @ ''"],samp,":"); for(i=1;i<=length(fmt);++i) { if (fmt[i]=="'' @ field s_obj
           @ ''") { SAMPLE_'' @ join ''_'' [the (name_clean s_obj), field s_obj]
           @ ''=samp[i]; break } } ''))\<close>

definition sample_prologues :: "int \<Rightarrow> sample list \<Rightarrow> string \<Rightarrow> string" where
  "sample_prologues samples_start_col sample_queries perline =
     fold (\<lambda>s_obj perline. sample_prologue samples_start_col s_obj @ perline)
       sample_queries perline"

text \<open>Lines 321 to 351: the sample references are renamed.\<close>

definition sample_pattern :: "sample \<Rightarrow> string" where
  \<comment> \<open>the pattern given to \<open>re.sub\<close>, without the \<open>look_ahead\<close> that ends it\<close>
  "sample_pattern s_obj =
     (if field s_obj = ''ALL'' then
        (if the (name_clean s_obj) = ''*'' then ''S'' @ [bslash] @ ''$'' @ [bslash] @ ''*''
         else ''S'' @ [bslash] @ ''$'' @ the (name_escaped s_obj))
      else
        (if the (name_clean s_obj) = ''*'' then
           ''S'' @ [bslash] @ ''$'' @ [bslash] @ ''*'' @ [bslash] @ ''$'' @ field s_obj
         else ''S'' @ [bslash] @ ''$''
              @ join ([bslash] @ ''$'') [the (name_escaped s_obj), field s_obj]))"

definition sample_var :: "sample \<Rightarrow> string" where
  \<comment> \<open>the replacement text: the name of the generated variable\<close>
  "sample_var s_obj =
     (if the (name_clean s_obj) = ''*'' then ''ALLSAMPLES_'' @ field s_obj
      else ''SAMPLE_'' @ join ''_'' [the (name_clean s_obj), field s_obj])"

fun sample_rename :: "sample list \<Rightarrow> string \<Rightarrow> error + string" where
  "sample_rename [] perline = Inr perline"
| "sample_rename (s_obj # sample_queries) perline =
     (case re_sub True (sample_pattern s_obj) (sample_var s_obj) perline of
        Inl e \<Rightarrow> Inl e
      | Inr perline' \<Rightarrow> sample_rename sample_queries perline')"

definition rename_stage :: "sample list \<Rightarrow> string \<Rightarrow> error + string" where
  "rename_stage sample_queries perline =
     (if has_sub ''S$'' perline then sample_rename sample_queries perline else Inr perline)"

text \<open>Lines 353 to 363: the statements that clear the variables of the previous line.\<close>

definition info_reset :: "string \<Rightarrow> string" where
  \<open>info_reset mykey = ''INFO_'' @ mykey @ ''=""; ''\<close>

definition sample_reset :: "sample \<Rightarrow> string" where
  \<open>sample_reset s_obj =
     (if the (name_clean s_obj) \<noteq> ''*''
      then ''SAMPLE_'' @ join ''_'' [the (name_clean s_obj), field s_obj] @ ''=""; ''
      else [])\<close>

definition reset_stage :: "string list \<Rightarrow> sample list \<Rightarrow> string \<Rightarrow> string" where
  "reset_stage info_keys sample_queries perline =
     fold (\<lambda>s_obj perline. sample_reset s_obj @ perline) sample_queries
       (fold (\<lambda>mykey perline. info_reset mykey @ perline) info_keys perline)"

text \<open>Lines 365 to 396: the FORMAT split, the header lines, the three blocks.\<close>

definition format_split :: "int \<Rightarrow> string" where
  \<open>format_split format_col = ''split($'' @ str_int format_col @ '',fmt,":"); ''\<close>

definition header_open :: "bool \<Rightarrow> int \<Rightarrow> string" where
  \<comment> \<open>the text before \<open>perline\<close> in the two branches of \<open>if header\<close>\<close>
  \<open>header_open header samples_start_col =
     (if header then
        ''if ($0~"^#") {if ($0!~"^##") { for (i='' @ str_int samples_start_col
        @ '';i<=NF;++i) SAMPLE[$i]=i; }; print} else {''
      else
        ''if ($0~"^#") {if ($0!~"^##") { for (i='' @ str_int samples_start_col
        @ '';i<=NF;++i) SAMPLE[$i]=i; }; next} else {'')\<close>

definition assemble :: "bool \<Rightarrow> int \<Rightarrow> string \<Rightarrow> string \<Rightarrow> string \<Rightarrow> string" where
  \<open>assemble header info_col begin perline end =
     (let format_col = info_col + 1;
          samples_start_col = info_col + 2;
          perline = format_split format_col @ perline;
          perline = header_open header samples_start_col @ perline @ ''}''
      in ''BEGIN {FS="'' @ [bslash] @ ''t"; OFS="'' @ [bslash] @ ''t"; '' @ begin @ ''}''
         @ '' {'' @ perline @ ''} '' @ ''END {'' @ end @ ''}'')\<close>

text \<open>Lines 398 to 407: the child is started and its output is printed line by line.\<close>

fun readlines :: "string \<Rightarrow> string list" where
  \<comment> \<open>the values of \<open>p.stdout.readline()\<close> up to the end of the stream: each line
      with its newline, the last one without if the stream does not end with one\<close>
  "readlines [] = []"
| "readlines (c # s) =
     (if c = newline then [c] # readlines s
      else (case readlines s of [] \<Rightarrow> [[c]] | l # ls \<Rightarrow> (c # l) # ls))"

definition isspace_bytes :: "char \<Rightarrow> bool" where
  \<comment> \<open>the whitespace of \<open>bytes.rstrip()\<close>: tab, newline, vertical tab, form feed,
      carriage return, space\<close>
  "isspace_bytes c = (let n = (of_char c :: nat) in (9 \<le> n \<and> n \<le> 13) \<or> n = 32)"

definition rstrip_bytes :: "string \<Rightarrow> string" where
  \<comment> \<open>\<open>line.rstrip()\<close> of a \<open>bytes\<close> object\<close>
  "rstrip_bytes line = rev (dropWhile isspace_bytes (rev line))"

definition hex_chr :: "nat \<Rightarrow> char" where
  "hex_chr d = ''0123456789abcdef'' ! d"

definition repr_byte :: "char \<Rightarrow> char \<Rightarrow> string" where
  \<comment> \<open>one byte in \<open>repr\<close> of a \<open>bytes\<close> object delimited by \<open>quote\<close>\<close>
  "repr_byte quote c =
     (let n = (of_char c :: nat) in
      if c = quote \<or> c = bslash then [bslash, c]
      else if n = 9 then [bslash, CHR ''t'']
      else if n = 10 then [bslash, CHR ''n'']
      else if n = 13 then [bslash, CHR ''r'']
      else if n < 32 \<or> 127 \<le> n then [bslash, CHR ''x'', hex_chr (n div 16), hex_chr (n mod 16)]
      else [c])"

definition repr_bytes :: "string \<Rightarrow> string" where
  \<comment> \<open>\<open>repr(b)\<close>, which is also \<open>str(b)\<close>, of a \<open>bytes\<close> object: \<open>b'...'\<close>, or
      \<open>b"..."\<close> when the bytes hold a single quote and no double quote\<close>
  "repr_bytes b =
     (let quote = (if CHR 0x27 \<in> set b \<and> CHR 0x22 \<notin> set b then CHR 0x22 else CHR 0x27)
      in ''b'' @ [quote] @ concat (map (repr_byte quote) b) @ [quote])"

fun print_lines :: "string list \<Rightarrow> unit io" where
  \<comment> \<open>\<open>for line in iter(p.stdout.readline, b""): print(line.rstrip())\<close>; \<open>line\<close> is a
      \<open>bytes\<close> object, and \<open>print\<close> writes \<open>str\<close> of it\<close>
  "print_lines [] = io_return ()"
| "print_lines (line # lines) =
     io_bind (print (repr_bytes (rstrip_bytes line))) (\<lambda>_. print_lines lines)"

definition run_engine :: "env \<Rightarrow> bool \<Rightarrow> string list \<Rightarrow> unit io" where
  "run_engine ev debug cmd =
     io_bind (if debug then print (join '' '' cmd) else io_return ()) (\<lambda>_.
     io_bind (Popen ev cmd) (\<lambda>p.
     print_lines (readlines (child_out p))))"

text \<open>The whole of \<open>vawk\<close>.\<close>

definition vawk :: "env \<Rightarrow> bool \<Rightarrow> bool \<Rightarrow> string list \<Rightarrow> int \<Rightarrow> string list \<Rightarrow> string \<Rightarrow> unit io" where
  "vawk ev debug header var info_col vawk_string vcf_file =
     (let samples_start_col = info_col + 2;
          var_list = concat (map (\<lambda>v. [''-v'', v]) var)
      in
      io_bind (io_lift (case vawk_string of [] \<Rightarrow> Inl IndexError | raw # _ \<Rightarrow> parse raw))
        (\<lambda>(begin, perline, end).
      io_bind
        (if debug then
           io_bind (print (''begin: '' @ begin)) (\<lambda>_.
           io_bind (print (''perline: '' @ perline)) (\<lambda>_.
           print (''end: '' @ end)))
         else io_return ())
        (\<lambda>_.
      io_bind (io_lift (info_stage ev info_col perline)) (\<lambda>(info_keys, perline).
      io_bind
        (sample_loop debug (set_iter ev (findall_ref CHR ''S'' is_sample_chr perline)) [])
        (\<lambda>sample_queries.
      io_bind
        (io_lift (rename_stage sample_queries
           (sample_prologues samples_start_col sample_queries perline)))
        (\<lambda>perline.
      run_engine ev debug
        ([''gawk''] @ var_list
         @ [assemble header info_col begin (reset_stage info_keys sample_queries perline) end,
            vcf_file])))))))"

subsection \<open>\<open>main\<close> and the script\<close>

record args =
  args_debug :: bool
  args_header :: bool
  args_var :: "string list"
  args_info_col :: int
  args_cmd :: "string list"   \<comment> \<open>\<open>nargs=1\<close>: a list of one string\<close>
  args_vcf :: string

definition main :: "env \<Rightarrow> args \<Rightarrow> unit io" where
  \<comment> \<open>\<open>args\<close> is what \<open>get_args()\<close> returns; \<open>main\<close> returns \<open>None\<close>\<close>
  "main ev a =
     vawk ev (args_debug a) (args_header a) (args_var a) (args_info_col a) (args_cmd a)
       (args_vcf a)"

definition script :: "env \<Rightarrow> args \<Rightarrow> world \<Rightarrow> world \<times> int" where
  \<comment> \<open>the \<open>try\<close> statement that ends the file: the world the process leaves and its exit
      status. \<open>sys.exit(None)\<close> is status 0; an \<open>IOError\<close> with \<open>errno\<close> 32 is dropped and
      the script ends; any other exception leaves the interpreter with status 1, and
      \<open>SystemExit(n)\<close> with status \<open>n\<close>.\<close>
  "script ev a w =
     (case main ev a w of
        (w', Inr _) \<Rightarrow> (w', 0)
      | (w', Inl (IOError errno)) \<Rightarrow> (w', if errno \<noteq> 32 then 1 else 0)
      | (w', Inl (SystemExit n)) \<Rightarrow> (w', n)
      | (w', Inl _) \<Rightarrow> (w', 1))"

subsection \<open>Balanced blocks, stated independently of the scan\<close>

text \<open>
  The definitions of this subsection do not come from the source. They say what it means
  for a block to close, by counting every brace of the text, and are what the theorems
  about \<open>parse\<close> compare the scan with.
\<close>

definition brace_delta :: "char \<Rightarrow> int" where
  "brace_delta c = (if c = CHR ''{'' then 1 else if c = CHR ''}'' then - 1 else 0)"

definition brace_depth :: "string \<Rightarrow> int" where
  \<comment> \<open>the number of \<open>{\<close> less the number of \<open>}\<close>, whatever surrounds them\<close>
  "brace_depth s = sum_list (map brace_delta s)"

definition closes_at :: "string \<Rightarrow> nat \<Rightarrow> int \<Rightarrow> nat \<Rightarrow> bool" where
  \<comment> \<open>index \<open>j\<close> holds a \<open>}\<close> at which the count, started at \<open>op_brace\<close> before index
      \<open>a\<close>, is zero\<close>
  "closes_at raw a op_brace j =
     (a \<le> j \<and> j < length raw \<and> raw ! j = CHR ''}'' \<and> op_brace + brace_depth (slice raw a (j + 1)) = 0)"

definition block_end :: "string \<Rightarrow> nat \<Rightarrow> nat option" where
  \<comment> \<open>the first index from \<open>a\<close> on at which the count returns to zero\<close>
  "block_end raw a = find (closes_at raw a 0) [a..<length raw]"

definition unclosed :: "string \<Rightarrow> nat \<Rightarrow> bool" where
  \<comment> \<open>the count never returns to zero from \<open>a\<close> on\<close>
  "unclosed raw a = (block_end raw a = None)"

fun quote_state :: "bool \<Rightarrow> string \<Rightarrow> bool" where
  \<comment> \<open>whether the text read so far ends inside a double-quoted awk string literal
      (a backslash escapes the next character of a literal)\<close>
  "quote_state q [] = q"
| "quote_state False (c # s) = quote_state (c = CHR 0x22) s"
| "quote_state True [c] = (c \<noteq> CHR 0x22)"
| "quote_state True (c # d # s) =
     (if c = CHR 0x5C then quote_state True s else quote_state (c \<noteq> CHR 0x22) (d # s))"

definition in_string :: "string \<Rightarrow> nat \<Rightarrow> bool" where
  "in_string raw j = quote_state False (take j raw)"

definition remove_block :: "string \<Rightarrow> string \<Rightarrow> string option" where
  \<comment> \<open>the text without the span of the first \<open>kw\<close> block, from the keyword to the
      closing brace; \<open>None\<close> when the block does not close\<close>
  "remove_block kw raw =
     (case re_search_opener kw raw of
        None \<Rightarrow> Some raw
      | Some i \<Rightarrow> (case block_end raw (i + length kw) of
                    None \<Rightarrow> None
                  | Some b \<Rightarrow> Some (take i raw @ drop (b + 1) raw)))"

subsection \<open>Notions the theorems use\<close>

text \<open>
  None of these definitions comes from the source: they name what the theorems speak
  about, and the inputs of their examples.
\<close>

definition n_sep :: "string \<Rightarrow> nat" where
  \<comment> \<open>the number of subfield separators of a sample token\<close>
  "n_sep tok = count_list tok CHR ''$''"

definition error_line :: string where
  \<comment> \<open>what \<open>Sample\<close> prints before \<open>exit(1)\<close>\<close>
  "error_line = ''Error: format should be S$[ID]$[FMT]'' @ [newline]"

definition valid_iter :: "(string list \<Rightarrow> string list) \<Rightarrow> bool" where
  \<comment> \<open>an iteration over \<open>set(xs)\<close> meets each element of \<open>xs\<close> once\<close>
  "valid_iter f = (\<forall>xs. set (f xs) = set xs \<and> distinct (f xs))"

definition quiet_world :: world where
  \<comment> \<open>nothing written, nothing started, a standard output that takes everything\<close>
  "quiet_world = \<lparr>stdout = [], sink_room = None, sink_errno = 32, spawned = []\<rparr>"

definition plain_args :: "string \<Rightarrow> args" where
  \<comment> \<open>the arguments of \<open>vawk CMD\<close> on a pipe: no option, the defaults of \<open>get_args\<close>\<close>
  "plain_args c = \<lparr>args_debug = False, args_header = False, args_var = [], args_info_col = 8,
                   args_cmd = [c], args_vcf = ''-''\<rparr>"

definition fixed_env :: "string \<Rightarrow> int \<Rightarrow> env" where
  \<comment> \<open>sets are iterated in the order of first occurrence; every command runs a child
      that writes \<open>out\<close> and exits with \<open>rc\<close>\<close>
  "fixed_env out rc =
     \<lparr>set_iter = remdups, run_cmd = (\<lambda>cmd. Inr \<lparr>child_out = out, returncode = rc\<rparr>)\<rparr>"

definition plain_name :: "string \<Rightarrow> bool" where
  \<comment> \<open>a sample name of letters, digits, underscores, hyphens and periods\<close>
  "plain_name n = (\<forall>c \<in> set n. isalnum_ascii c \<or> c = CHR ''_'' \<or> c = CHR ''-'' \<or> c = CHR ''.'')"

definition plain_field :: "string \<Rightarrow> bool" where
  \<comment> \<open>a subfield name of letters, digits, underscores and hyphens\<close>
  "plain_field f = (\<forall>c \<in> set f. isalnum_ascii c \<or> c = CHR ''_'' \<or> c = CHR ''-'')"

definition plain_token :: "string \<Rightarrow> bool" where
  \<comment> \<open>a sample token with at most one separator, whose name is plain or the wildcard
      \<open>*\<close>, and whose subfield, if it has one, is plain and is not \<open>ALL\<close>\<close>
  "plain_token tok =
     (let n = takeWhile (\<lambda>c. c \<noteq> CHR ''$'') tok; f = tl (dropWhile (\<lambda>c. c \<noteq> CHR ''$'') tok) in
      n_sep tok \<le> 1 \<and> (n = ''*'' \<or> plain_name n) \<and>
      (n_sep tok = 1 \<longrightarrow> plain_field f \<and> f \<noteq> ''ALL''))"

definition lits :: "string \<Rightarrow> item list" where
  \<comment> \<open>the items of a pattern that is this text, character by character\<close>
  "lits s = map (\<lambda>c. One (Chr c)) s"

definition escape :: "string \<Rightarrow> string" where
  \<comment> \<open>a name with a backslash before each hyphen and period\<close>
  "escape n = concat (map (\<lambda>c. if c = CHR ''-'' \<or> c = CHR ''.'' then [bslash, c] else [c]) n)"

fun no_pair :: "char \<Rightarrow> char \<Rightarrow> char \<Rightarrow> string \<Rightarrow> bool" where
  \<comment> \<open>in the text \<open>s\<close>, which follows the character \<open>p\<close>, no \<open>c\<close> stands right before
      a \<open>d\<close>\<close>
  "no_pair c d p [] = True"
| "no_pair c d p (x # s) = (\<not> (p = c \<and> x = d) \<and> no_pair c d x s)"

fun info_renamed :: "string list \<Rightarrow> string \<Rightarrow> string" where
  \<comment> \<open>the text after the annotation references of the keys are replaced, one key
      after the other\<close>
  "info_renamed [] s = s"
| "info_renamed (k # ks) s =
     info_renamed ks (re_sub_scan False (lits (''I$'' @ k)) (''INFO_'' @ k) True s)"

definition sample_of :: "string \<Rightarrow> sample" where
  \<comment> \<open>the object that \<open>Sample(tok)\<close> and \<open>clean\<close> make of a token with at most one
      separator\<close>
  "sample_of tok =
     clean \<lparr>string_raw = tok, name_raw = takeWhile (\<lambda>c. c \<noteq> CHR ''$'') tok,
            name_clean = None, name_escaped = None,
            field = (if n_sep tok = 0 then ''ALL'' else tl (dropWhile (\<lambda>c. c \<noteq> CHR ''$'') tok))\<rparr>"

definition star_safe :: "string \<Rightarrow> bool" where
  \<comment> \<open>the name of the token is the wildcard \<open>*\<close> or does not begin with \<open>*\<close>\<close>
  "star_safe tok =
     (let n = takeWhile (\<lambda>c. c \<noteq> CHR ''$'') tok in n = ''*'' \<or> \<not> prefix ''*'' n)"

definition keeps_spawned :: "'a io \<Rightarrow> bool" where
  \<comment> \<open>the computation starts no child\<close>
  "keeps_spawned m = (\<forall>w. spawned (fst (m w)) = spawned w)"

definition star_cond :: "sample \<Rightarrow> bool" where
  \<comment> \<open>the sample is the wildcard, or its escaped name does not begin with \<open>*\<close>\<close>
  "star_cond s = (the (name_clean s) = ''*'' \<or> \<not> prefix ''*'' (the (name_escaped s)))"

fun after_first :: "string \<Rightarrow> string \<Rightarrow> string option" where
  \<comment> \<open>what follows the first occurrence of \<open>p\<close> in the text\<close>
  "after_first p [] = (if p = [] then Some [] else None)"
| "after_first p (c # s) =
     (if prefix p (c # s) then Some (drop (length p) (c # s)) else after_first p s)"

fun occurs_in_order :: "string list \<Rightarrow> string \<Rightarrow> bool" where
  \<comment> \<open>the pieces occur in the text one after the other, in this order\<close>
  "occurs_in_order [] s = True"
| "occurs_in_order (p # ps) s =
     (case after_first p s of None \<Rightarrow> False | Some r \<Rightarrow> occurs_in_order ps r)"

section \<open>Properties\<close>

subsection \<open>The block scan\<close>

lemma slice_step:
  assumes "a < length raw" "a \<le> j"
  shows "slice raw a (Suc j) = raw ! a # slice raw (Suc a) (Suc j)"
proof -
  have "drop a raw = raw ! a # drop (Suc a) raw"
    using assms(1) by (simp add: Cons_nth_drop_Suc)
  moreover have "Suc j - a = Suc (j - a)" using assms(2) by simp
  ultimately show ?thesis by (simp add: slice_def)
qed

lemma closes_at_step:
  assumes "a < length raw"
  shows "closes_at raw a op_brace j =
     ((j = a \<and> raw ! a = CHR ''}'' \<and> op_brace = 1) \<or>
      closes_at raw (Suc a) (op_brace + brace_delta (raw ! a)) j)"
proof (cases "a \<le> j")
  case False
  then show ?thesis by (auto simp: closes_at_def)
next
  case True
  note aj = this
  show ?thesis
  proof (cases "j = a")
    case True
    have "slice raw a (Suc a) = [raw ! a]"
      using assms by (simp add: slice_def Cons_nth_drop_Suc [symmetric])
    then show ?thesis using True assms
      by (auto simp: closes_at_def brace_depth_def brace_delta_def)
  next
    case False
    then have "a < j" using aj by simp
    then show ?thesis using assms
      by (auto simp: closes_at_def brace_depth_def slice_step)
  qed
qed

lemma closes_at_beyond: "length raw \<le> a \<Longrightarrow> \<not> closes_at raw a op_brace j"
  by (auto simp: closes_at_def)

lemma scan_block_Inr:
  "scan_block raw a op_brace = Inr (b, op') \<Longrightarrow>
     closes_at raw a op_brace b \<and> op' = 0 \<and> (\<forall>j<b. \<not> closes_at raw a op_brace j)"
proof (induction raw a op_brace rule: scan_block.induct)
  case (1 raw a op_brace)
  show ?case
  proof (cases "length raw \<le> a")
    case True
    with "1.prems" show ?thesis by (simp add: scan_block.simps [of raw a op_brace])
  next
    case False
    then have lt: "a < length raw" by simp
    show ?thesis
    proof (cases "raw ! a = CHR ''}'' \<and> op_brace = 1")
      case True
      then have c: "raw ! a = CHR ''}''" and o: "op_brace = 1" by simp_all
      have "scan_block raw a 1 = Inr (a, 0)"
        using lt c by (simp add: scan_block.simps [of raw a 1])
      with "1.prems" o have "b = a" "op' = 0" by simp_all
      moreover have "\<forall>j<a. \<not> closes_at raw a op_brace j" by (simp add: closes_at_def)
      ultimately show ?thesis using True lt by (simp add: closes_at_step [OF lt])
    next
      case False
      with "1.prems" lt
      have rec: "scan_block raw (a + 1) (op_brace + brace_delta (raw ! a)) = Inr (b, op')"
        by (auto simp: scan_block.simps [of raw a op_brace] brace_delta_def split: if_splits)
      have "closes_at raw (a + 1) (op_brace + brace_delta (raw ! a)) b \<and> op' = 0 \<and>
            (\<forall>j<b. \<not> closes_at raw (a + 1) (op_brace + brace_delta (raw ! a)) j)"
        using "1.IH" lt False rec
        by (auto simp: brace_delta_def split: if_splits)
      then show ?thesis using False by (auto simp: closes_at_step [OF lt])
    qed
  qed
qed

lemma scan_block_Inl:
  "scan_block raw a op_brace = Inl e \<Longrightarrow> e = IndexError \<and> (\<forall>j. \<not> closes_at raw a op_brace j)"
proof (induction raw a op_brace rule: scan_block.induct)
  case (1 raw a op_brace)
  show ?case
  proof (cases "length raw \<le> a")
    case True
    with "1.prems" show ?thesis
      by (simp add: scan_block.simps [of raw a op_brace] closes_at_beyond)
  next
    case False
    then have lt: "a < length raw" by simp
    have nz: "\<not> (raw ! a = CHR ''}'' \<and> op_brace = 1)"
      using "1.prems" lt by (auto simp: scan_block.simps [of raw a op_brace])
    with "1.prems" lt
    have rec: "scan_block raw (a + 1) (op_brace + brace_delta (raw ! a)) = Inl e"
      by (auto simp: scan_block.simps [of raw a op_brace] brace_delta_def split: if_splits)
    have "e = IndexError \<and> (\<forall>j. \<not> closes_at raw (a + 1) (op_brace + brace_delta (raw ! a)) j)"
      using "1.IH" lt nz rec by (auto simp: brace_delta_def split: if_splits)
    then show ?thesis using nz by (auto simp: closes_at_step [OF lt])
  qed
qed

lemma scan_block_unclosed:
  assumes "\<forall>j. \<not> closes_at raw a op_brace j"
  shows "scan_block raw a op_brace = Inl IndexError"
proof (cases "scan_block raw a op_brace")
  case (Inl e)
  then show ?thesis using scan_block_Inl by blast
next
  case (Inr p)
  then obtain b op' where "scan_block raw a op_brace = Inr (b, op')" by (cases p) simp
  then have "closes_at raw a op_brace b" using scan_block_Inr by blast
  with assms show ?thesis by blast
qed

lemma block_end_None: "block_end raw a = None \<Longrightarrow> \<not> closes_at raw a 0 j"
  by (auto simp: block_end_def find_None_iff closes_at_def)

lemma block_end_Some:
  assumes "block_end raw a = Some b"
  shows "closes_at raw a 0 b \<and> (\<forall>j<b. \<not> closes_at raw a 0 j)"
proof -
  from assms obtain k where k: "k < length [a..<length raw]" "closes_at raw a 0 ([a..<length raw] ! k)"
    "b = [a..<length raw] ! k" "\<forall>j<k. \<not> closes_at raw a 0 ([a..<length raw] ! j)"
    unfolding block_end_def find_Some_iff by blast
  then have b: "b = a + k" and cl: "closes_at raw a 0 b" by simp_all
  have "\<not> closes_at raw a 0 j" if "j < b" for j
  proof (cases "a \<le> j")
    case False
    then show ?thesis by (simp add: closes_at_def)
  next
    case True
    then have "j - a < k" using that b by simp
    with k(4) have "\<not> closes_at raw a 0 ([a..<length raw] ! (j - a))" by blast
    moreover have "[a..<length raw] ! (j - a) = j" using True that b k(1) by simp
    ultimately show ?thesis by simp
  qed
  with cl show ?thesis by blast
qed

lemma scan_block_closed:
  assumes "block_end raw a = Some b"
  shows "scan_block raw a 0 = Inr (b, 0)"
proof (cases "scan_block raw a 0")
  case (Inl e)
  then show ?thesis using scan_block_Inl block_end_Some [OF assms] by blast
next
  case (Inr p)
  then obtain b' op' where r: "scan_block raw a 0 = Inr (b', op')" by (cases p) simp
  from scan_block_Inr [OF r] have c': "closes_at raw a 0 b'" "op' = 0"
    "\<forall>j<b'. \<not> closes_at raw a 0 j" by simp_all
  from block_end_Some [OF assms] have c: "closes_at raw a 0 b" "\<forall>j<b. \<not> closes_at raw a 0 j"
    by simp_all
  have "b' = b" using c c' by (meson linorder_neqE_nat)
  with r c'(2) show ?thesis by simp
qed

lemma get_block_closed:
  assumes "re_search_opener kw raw = Some i" and "block_end raw (i + length kw) = Some b"
  shows "get_block kw raw 0 =
           Inr (inner (strip (slice raw (i + length kw) (b + 1))), take i raw @ drop (b + 1) raw, 0)"
  using assms scan_block_closed [OF assms(2)] by (simp add: get_block_def)

lemma get_block_no_opener:
  "re_search_opener kw raw = None \<Longrightarrow> get_block kw raw op_brace = Inr ([], raw, op_brace)"
  by (simp add: get_block_def)

lemma get_block_unclosed:
  assumes "re_search_opener kw raw = Some i" and "a = i + length kw" and "unclosed raw a"
  shows "get_block kw raw 0 = Inl IndexError"
proof -
  have "\<forall>j. \<not> closes_at raw (i + length kw) 0 j"
    using assms(2,3) block_end_None by (simp add: unclosed_def)
  then have "scan_block raw (i + length kw) 0 = Inl IndexError" by (rule scan_block_unclosed)
  with assms(1) show ?thesis by (simp add: get_block_def)
qed

lemma get_block_counter:
  "get_block kw raw 0 = Inr (blk, raw', op') \<Longrightarrow> op' = 0"
  by (auto simp: get_block_def Let_def split: option.splits sum.splits dest: scan_block_Inr)

lemma get_block_remove_block:
  assumes "remove_block kw raw = Some raw'"
  shows "\<exists>blk. get_block kw raw 0 = Inr (blk, raw', 0)"
proof (cases "re_search_opener kw raw")
  case None
  with assms show ?thesis by (simp add: remove_block_def get_block_no_opener)
next
  case (Some i)
  with assms obtain b where "block_end raw (i + length kw) = Some b"
    and "raw' = take i raw @ drop (b + 1) raw"
    by (auto simp: remove_block_def split: option.splits)
  with Some show ?thesis using get_block_closed [of kw raw i b] by simp
qed

subsection \<open>The child and the exit status\<close>

lemma io_bind_Popen_returncode:
  assumes "run_cmd ev' cmd = map_sum id (\<lambda>p. p\<lparr>returncode := rc p\<rparr>) (run_cmd ev cmd)"
  shows "io_bind (Popen ev' cmd) (\<lambda>p. print_lines (readlines (child_out p))) =
         io_bind (Popen ev cmd) (\<lambda>p. print_lines (readlines (child_out p)))"
proof
  fix w
  show "io_bind (Popen ev' cmd) (\<lambda>p. print_lines (readlines (child_out p))) w =
        io_bind (Popen ev cmd) (\<lambda>p. print_lines (readlines (child_out p))) w"
    using assms by (cases "run_cmd ev cmd") (simp_all add: io_bind_def Popen_def)
qed

lemma run_engine_returncode:
  assumes "run_cmd ev' cmd = map_sum id (\<lambda>p. p\<lparr>returncode := rc p\<rparr>) (run_cmd ev cmd)"
  shows "run_engine ev' debug cmd = run_engine ev debug cmd"
  by (simp add: run_engine_def io_bind_Popen_returncode [OF assms])

lemma vawk_returncode:
  assumes "set_iter ev' = set_iter ev"
    and "\<And>cmd. run_cmd ev' cmd = map_sum id (\<lambda>p. p\<lparr>returncode := rc p\<rparr>) (run_cmd ev cmd)"
  shows "vawk ev' debug header var info_col vawk_string vcf_file =
         vawk ev debug header var info_col vawk_string vcf_file"
  by (simp add: vawk_def info_stage_def assms(1) run_engine_returncode [OF assms(2)])

subsection \<open>Sample tokens\<close>

lemma split_on_unfold:
  "split_on c s = takeWhile (\<lambda>x. x \<noteq> c) s #
     (case dropWhile (\<lambda>x. x \<noteq> c) s of [] \<Rightarrow> [] | _ # r \<Rightarrow> split_on c r)"
  by (induction s) (auto split: list.splits)

lemma length_split_on: "length (split_on c s) = Suc (count_list s c)"
  by (induction s) (auto split: list.splits)

lemma split_on_nth0: "split_on c s ! 0 = takeWhile (\<lambda>x. x \<noteq> c) s"
  by (subst split_on_unfold) simp

lemma split_on_none: "count_list s c = 0 \<Longrightarrow> split_on c s = [s]"
  by (induction s) (auto split: list.splits if_splits)

lemma count_list_dropWhile:
  "count_list (dropWhile (\<lambda>x. x \<noteq> c) s) c = count_list s c"
  by (induction s) auto

lemma split_on_nth1:
  assumes "count_list s c = 1"
  shows "split_on c s ! 1 = tl (dropWhile (\<lambda>x. x \<noteq> c) s)"
proof (cases "dropWhile (\<lambda>x. x \<noteq> c) s")
  case Nil
  then have "c \<notin> set s" by auto
  then have "count_list s c = 0" by (simp add: count_list_0_iff)
  with assms show ?thesis by simp
next
  case (Cons d r)
  then have d: "d = c" using hd_dropWhile [of "\<lambda>x. x \<noteq> c" s] by auto
  have "count_list (d # r) c = 1" using assms Cons count_list_dropWhile [of c s] by simp
  with d have "count_list r c = 0" by simp
  then have "split_on c r = [r]" by (rule split_on_none)
  with Cons show ?thesis by (subst split_on_unfold) simp
qed

lemma print_quiet:
  "sink_room w = None \<Longrightarrow> print s w = (w\<lparr>stdout := stdout w @ s @ [newline]\<rparr>, Inr ())"
  by (simp add: print_def)

lemma Sample_init_whole:
  assumes "n_sep tok = 0"
  shows "Sample_init tok w =
     (w, Inr \<lparr>string_raw = tok, name_raw = tok, name_clean = None, name_escaped = None,
              field = ''ALL''\<rparr>)"
  using assms split_on_none [of tok "CHR ''$''"]
  by (simp add: Sample_init_def n_sep_def io_return_def)

lemma Sample_init_subfield:
  assumes "n_sep tok = 1"
  shows "Sample_init tok w =
     (w, Inr \<lparr>string_raw = tok, name_raw = takeWhile (\<lambda>c. c \<noteq> CHR ''$'') tok,
              name_clean = None, name_escaped = None,
              field = tl (dropWhile (\<lambda>c. c \<noteq> CHR ''$'') tok)\<rparr>)"
  using assms split_on_nth1 [of tok "CHR ''$''"]
  by (simp add: Sample_init_def n_sep_def io_return_def length_split_on split_on_nth0 Let_def)

lemma Sample_init_invalid:
  assumes "1 < n_sep tok" and "sink_room w = None"
  shows "Sample_init tok w = (w\<lparr>stdout := stdout w @ error_line\<rparr>, Inl (SystemExit 1))"
  using assms
  by (simp add: Sample_init_def n_sep_def length_split_on Let_def io_bind_def print_quiet
      io_raise_def error_line_def)

lemma Sample_init_valid:
  assumes "n_sep tok \<le> 1"
  shows "\<exists>s_obj. Sample_init tok w = (w, Inr s_obj)"
proof (cases "n_sep tok = 0")
  case True
  then show ?thesis using Sample_init_whole by blast
next
  case False
  with assms have "n_sep tok = 1" by simp
  then show ?thesis using Sample_init_subfield by blast
qed

lemma sample_loop_invalid:
  assumes "\<exists>tok \<in> set toks. 1 < n_sep tok" and "sink_room w = None"
  shows "\<exists>w' pre. sample_loop debug toks acc w = (w', Inl (SystemExit 1)) \<and>
           stdout w' = stdout w @ pre @ error_line \<and> spawned w' = spawned w \<and>
           (\<not> debug \<longrightarrow> pre = [])"
  using assms
proof (induction toks arbitrary: acc w)
  case Nil
  then show ?case by simp
next
  case (Cons t toks)
  show ?case
  proof (cases "1 < n_sep t")
    case True
    have "sample_loop debug (t # toks) acc w = (w\<lparr>stdout := stdout w @ error_line\<rparr>, Inl (SystemExit 1))"
      using Sample_init_invalid [OF True Cons.prems(2)] by (simp add: io_bind_def)
    then show ?thesis by simp
  next
    case False
    then have le: "n_sep t \<le> 1" by simp
    from Sample_init_valid [OF le] obtain s_obj where s: "Sample_init t w = (w, Inr s_obj)" by blast
    from False Cons.prems(1) have rest: "\<exists>tok \<in> set toks. 1 < n_sep tok" by auto
    define dbg where "dbg = ''name_raw: '' @ name_raw (clean s_obj) @ [newline]
       @ ''name_clean: '' @ the (name_clean (clean s_obj)) @ [newline]
       @ ''name_escaped: '' @ the (name_escaped (clean s_obj)) @ [newline]"
    define w1 where "w1 = (if debug then w\<lparr>stdout := stdout w @ dbg\<rparr> else w)"
    have q: "sink_room w1 = None" using Cons.prems(2) by (simp add: w1_def)
    have step: "sample_loop debug (t # toks) acc w = sample_loop debug toks (acc @ [clean s_obj]) w1"
      using s Cons.prems(2)
      by (simp add: io_bind_def Let_def print_quiet io_return_def w1_def dbg_def)
    from Cons.IH [OF rest q, of "acc @ [clean s_obj]"]
    obtain w' pre where r: "sample_loop debug toks (acc @ [clean s_obj]) w1 = (w', Inl (SystemExit 1))"
      "stdout w' = stdout w1 @ pre @ error_line" "spawned w' = spawned w1" "\<not> debug \<longrightarrow> pre = []"
      by blast
    show ?thesis
    proof (cases debug)
      case True
      with r step show ?thesis
        by (intro exI [of _ w'] exI [of _ "dbg @ pre"]) (simp add: w1_def)
    next
      case False
      with r step show ?thesis
        by (intro exI [of _ w'] exI [of _ pre]) (simp add: w1_def)
    qed
  qed
qed

subsection \<open>The steps of \<open>vawk\<close>\<close>

lemma valid_iter_mem: "valid_iter f \<Longrightarrow> x \<in> set xs \<Longrightarrow> x \<in> set (f xs)"
  by (simp add: valid_iter_def)

lemma valid_iter_remdups: "valid_iter remdups"
  by (simp add: valid_iter_def)

lemma io_bind_lift_Inr: "io_bind (io_lift (Inr x)) f = f x"
  by (rule ext) (simp add: io_bind_def io_lift_def)

lemma io_bind_lift_Inl: "io_bind (io_lift (Inl e)) f w = (w, Inl e)"
  by (simp add: io_bind_def io_lift_def)

lemma io_bind_return: "io_bind (io_return x) f = f x"
  by (rule ext) (simp add: io_bind_def io_return_def)

lemma vawk_unfold:
  assumes "parse raw = Inr (begin, perline, end)"
    and "info_stage ev info_col perline = Inr (info_keys, perline')"
  shows "vawk ev debug header var info_col (raw # rest) vcf_file w =
     io_bind
       (if debug then
          io_bind (print (''begin: '' @ begin)) (\<lambda>_.
          io_bind (print (''perline: '' @ perline)) (\<lambda>_.
          print (''end: '' @ end)))
        else io_return ())
       (\<lambda>_.
     io_bind
       (sample_loop debug (set_iter ev (findall_ref CHR ''S'' is_sample_chr perline')) [])
       (\<lambda>sample_queries.
     io_bind
       (io_lift (rename_stage sample_queries
          (sample_prologues (info_col + 2) sample_queries perline')))
       (\<lambda>perline.
     run_engine ev debug
       ([''gawk''] @ concat (map (\<lambda>v. [''-v'', v]) var)
        @ [assemble header info_col begin (reset_stage info_keys sample_queries perline) end,
           vcf_file])))) w"
  using assms by (simp add: vawk_def io_bind_lift_Inr Let_def)

lemma debug_prints_quiet:
  assumes "sink_room w = None"
  shows "(if debug then
            io_bind (print (''begin: '' @ begin)) (\<lambda>_.
            io_bind (print (''perline: '' @ perline)) (\<lambda>_.
            print (''end: '' @ end)))
          else io_return ()) w =
         ((if debug then w\<lparr>stdout := stdout w @ ''begin: '' @ begin @ [newline]
              @ ''perline: '' @ perline @ [newline] @ ''end: '' @ end @ [newline]\<rparr> else w), Inr ())"
  using assms by (simp add: io_bind_def print_quiet io_return_def)

subsection \<open>Patterns without repetition\<close>

lemma isalnum_ascii_not_special:
  "isalnum_ascii c \<Longrightarrow> c \<noteq> bslash \<and> c \<noteq> CHR ''*'' \<and> c \<noteq> CHR ''.'' \<and> c \<noteq> CHR ''^'' \<and> c \<noteq> CHR ''-'' \<and> c \<noteq> CHR ''$'' \<and> c \<noteq> CHR ''_''"
  by (auto simp: isalnum_ascii_def Let_def)

lemma isword_not_special:
  "isword c \<Longrightarrow> c \<noteq> bslash \<and> c \<noteq> CHR ''*'' \<and> c \<noteq> CHR ''.'' \<and> c \<noteq> CHR ''^'' \<and> c \<noteq> CHR ''$''"
  by (auto simp: isword_def isalnum_ascii_def Let_def)

lemma re_parse_acc_lits:
  assumes "\<forall>c \<in> set s. c \<noteq> bslash \<and> c \<noteq> CHR ''*'' \<and> c \<noteq> CHR ''.'' \<and> c \<noteq> CHR ''^''"
  shows "re_parse_acc acc (s @ t) = re_parse_acc (rev (lits s) @ acc) t"
  using assms by (induction s arbitrary: acc) (simp_all add: lits_def)

lemma re_parse_acc_escape:
  assumes "plain_name n"
  shows "re_parse_acc acc (escape n @ t) = re_parse_acc (rev (lits n) @ acc) t"
  using assms
proof (induction n arbitrary: acc)
  case Nil
  then show ?case by (simp add: escape_def lits_def)
next
  case (Cons c n)
  then have n: "plain_name n" and c: "isalnum_ascii c \<or> c = CHR ''_'' \<or> c = CHR ''-'' \<or> c = CHR ''.''"
    by (simp_all add: plain_name_def)
  have e: "escape (c # n) = (if c = CHR ''-'' \<or> c = CHR ''.'' then [bslash, c] else [c]) @ escape n"
    by (simp add: escape_def)
  from c have "re_parse_acc acc (escape (c # n) @ t) = re_parse_acc (One (Chr c) # acc) (escape n @ t)"
    unfolding e using isalnum_ascii_not_special [of c] by auto
  then show ?case using Cons.IH [OF n] by (simp add: lits_def)
qed

lemma replace_chr_Cons:
  "replace_chr c new (x # xs) = (if x = c then new else [x]) @ replace_chr c new xs"
  by (simp add: replace_chr_def)

lemma replace_chr_Nil: "replace_chr c new [] = []"
  by (simp add: replace_chr_def)

lemma replace_chr_append:
  "replace_chr c new (xs @ ys) = replace_chr c new xs @ replace_chr c new ys"
  by (simp add: replace_chr_def)

lemma clean_escaped:
  "bslash \<notin> set (name_raw s) \<Longrightarrow> name_escaped (clean s) = Some (escape (name_raw s))"
proof -
  have "bslash \<notin> set n \<Longrightarrow>
        replace_chr CHR ''.'' [bslash, CHR ''.''] (replace_chr CHR ''-'' [bslash, CHR ''-''] n) = escape n" for n
    by (induction n) (auto simp: replace_chr_Cons replace_chr_Nil escape_def)
  then show "bslash \<notin> set (name_raw s) \<Longrightarrow> name_escaped (clean s) = Some (escape (name_raw s))"
    by (simp add: clean_def gremlin_list_def)
qed

lemma clean_fields:
  "name_raw (clean s) = name_raw s" "field (clean s) = field s"
  "name_clean (clean s) =
     Some (replace_chr CHR ''.'' ''_'' (replace_chr CHR ''-'' ''_'' (name_raw s)))"
  by (simp_all add: clean_def gremlin_list_def)

lemma re_match_lits:
  "re_match la (lits p @ is) st (p @ r) =
     map_option (\<lambda>n. length p + n) (re_match la is (st \<and> p = []) r)"
proof (induction p arbitrary: st)
  case Nil
  then show ?case by (simp add: lits_def option.map_ident)
next
  case (Cons c p)
  have "re_match la (lits (c # p) @ is) st ((c # p) @ r) =
        map_option Suc (re_match la (lits p @ is) False (p @ r))"
    by (simp add: lits_def)
  also have "\<dots> = map_option Suc (map_option (\<lambda>n. length p + n) (re_match la is False r))"
    using Cons.IH [of False] by simp
  finally show ?case by (simp add: option.map_comp comp_def)
qed

lemma re_match_end:
  "re_match la [] st r = (if la \<and> r \<noteq> [] \<and> look_ahead (hd r) then None else Some 0)"
  by (cases r) simp_all

lemma re_match_literal:
  "re_match la (lits p) st (p @ r) =
     (if la \<and> r \<noteq> [] \<and> look_ahead (hd r) then None else Some (length p))"
  using re_match_lits [of la p "[]" st r] by (cases r) auto

lemma tok_decompose:
  assumes "n_sep tok = 1"
  shows "tok = takeWhile (\<lambda>c. c \<noteq> CHR ''$'') tok @ ''$'' @ tl (dropWhile (\<lambda>c. c \<noteq> CHR ''$'') tok)"
proof (cases "dropWhile (\<lambda>c. c \<noteq> CHR ''$'') tok")
  case Nil
  then have "CHR ''$'' \<notin> set tok" by auto
  with assms show ?thesis by (simp add: n_sep_def count_list_0_iff)
next
  case (Cons d r)
  then have "d = CHR ''$''" using hd_dropWhile [of "\<lambda>c. c \<noteq> CHR ''$''" tok] by auto
  with Cons show ?thesis using takeWhile_dropWhile_id [of "\<lambda>c. c \<noteq> CHR ''$''" tok] by simp
qed

lemma plain_name_clean_not_star:
  assumes "plain_name n"
  shows "replace_chr CHR ''.'' ''_'' (replace_chr CHR ''-'' ''_'' n) \<noteq> ''*''"
proof -
  have "CHR ''*'' \<notin> set (replace_chr CHR ''.'' ''_'' (replace_chr CHR ''-'' ''_'' n))"
    using assms isalnum_ascii_not_special
    by (induction n) (auto simp: replace_chr_Cons replace_chr_Nil plain_name_def)
  then show ?thesis by auto
qed

lemma plain_name_no_bslash: "plain_name n \<Longrightarrow> bslash \<notin> set n"
  using isalnum_ascii_not_special by (auto simp: plain_name_def)

lemma plain_field_lits:
  assumes "plain_field f"
  shows "re_parse_acc acc (f @ t) = re_parse_acc (rev (lits f) @ acc) t"
proof (rule re_parse_acc_lits)
  show "\<forall>c \<in> set f. c \<noteq> bslash \<and> c \<noteq> CHR ''*'' \<and> c \<noteq> CHR ''.'' \<and> c \<noteq> CHR ''^''"
    using assms isalnum_ascii_not_special by (auto simp: plain_field_def)
qed

lemma sample_pattern_lits:
  assumes "Sample_init tok w = (w', Inr s_obj)" and "plain_token tok"
  shows "re_parse (sample_pattern (clean s_obj)) = Inr (lits (''S$'' @ tok))"
proof (cases "n_sep tok = 0")
  case True
  then have s: "s_obj = \<lparr>string_raw = tok, name_raw = tok, name_clean = None,
      name_escaped = None, field = ''ALL''\<rparr>"
    using assms(1) Sample_init_whole [of tok w] by simp
  have n: "takeWhile (\<lambda>c. c \<noteq> CHR ''$'') tok = tok"
    using True by (auto simp: n_sep_def count_list_0_iff takeWhile_eq_all_conv)
  show ?thesis
  proof (cases "tok = ''*''")
    case True
    then show ?thesis
      by (simp add: s sample_pattern_def clean_fields replace_chr_Cons replace_chr_Nil
          re_parse_def lits_def)
  next
    case False
    with assms(2) n have p: "plain_name tok" by (simp add: plain_token_def Let_def)
    have "re_parse_acc [One (Chr CHR ''$''), One (Chr CHR ''S'')] (escape tok @ []) =
          re_parse_acc (rev (lits tok) @ [One (Chr CHR ''$''), One (Chr CHR ''S'')]) []"
      using p by (rule re_parse_acc_escape)
    then show ?thesis
      using plain_name_clean_not_star [OF p] clean_escaped [of s_obj] plain_name_no_bslash [OF p]
      by (simp add: s sample_pattern_def clean_fields re_parse_def lits_def)
  qed
next
  case False
  with assms(2) have one: "n_sep tok = 1" by (simp add: plain_token_def Let_def)
  define n where "n = takeWhile (\<lambda>c. c \<noteq> CHR ''$'') tok"
  define f where "f = tl (dropWhile (\<lambda>c. c \<noteq> CHR ''$'') tok)"
  have s: "s_obj = \<lparr>string_raw = tok, name_raw = n, name_clean = None,
      name_escaped = None, field = f\<rparr>"
    using assms(1) Sample_init_subfield [OF one, of w] by (simp add: n_def f_def)
  have tok: "tok = n @ ''$'' @ f" using tok_decompose [OF one] by (simp add: n_def f_def)
  from assms(2) one have pf: "plain_field f" and fa: "f \<noteq> ''ALL''"
    and pn: "n = ''*'' \<or> plain_name n"
    by (simp_all add: plain_token_def Let_def n_def f_def)
  have fl: "re_parse_acc acc (f @ []) = re_parse_acc (rev (lits f) @ acc) []" for acc
    using pf by (rule plain_field_lits)
  show ?thesis
  proof (cases "n = ''*''")
    case True
    then show ?thesis
      using fa fl [of "[One (Chr CHR ''$''), One (Chr CHR ''*''), One (Chr CHR ''$''), One (Chr CHR ''S'')]"]
      by (simp add: s tok sample_pattern_def clean_fields replace_chr_Cons replace_chr_Nil
          re_parse_def lits_def)
  next
    case False
    with pn have p: "plain_name n" by simp
    have "re_parse_acc [One (Chr CHR ''$''), One (Chr CHR ''S'')] (escape n @ bslash # CHR ''$'' # f) =
          re_parse_acc (rev (lits n) @ [One (Chr CHR ''$''), One (Chr CHR ''S'')]) (bslash # CHR ''$'' # f)"
      using p by (rule re_parse_acc_escape)
    then show ?thesis
      using fa plain_name_clean_not_star [OF p] clean_escaped [of s_obj] plain_name_no_bslash [OF p]
        fl [of "One (Chr CHR ''$'') # rev (lits n) @ [One (Chr CHR ''$''), One (Chr CHR ''S'')]"]
      by (simp add: s tok sample_pattern_def clean_fields re_parse_def lits_def)
  qed
qed

lemma info_pattern_lits:
  assumes "list_all isword key"
  shows "re_parse (''I'' @ [bslash] @ ''$'' @ key) = Inr (lits (''I$'' @ key))"
proof -
  have "\<forall>c \<in> set key. c \<noteq> bslash \<and> c \<noteq> CHR ''*'' \<and> c \<noteq> CHR ''.'' \<and> c \<noteq> CHR ''^''"
    using assms isword_not_special by (auto simp: list_all_iff)
  from re_parse_acc_lits [OF this, of "[One (Chr CHR ''$''), One (Chr CHR ''I'')]" "[]"]
  show ?thesis by (simp add: re_parse_def lits_def)
qed

subsection \<open>Text that a replacement passes over\<close>

lemma fold_prepend: "fold (\<lambda>x p. f x @ p) xs p = concat (map f (rev xs)) @ p"
  by (induction xs arbitrary: p) simp_all

lemma no_pair_append:
  "no_pair c d p (A @ B) = (no_pair c d p A \<and> no_pair c d (last (p # A)) B)"
  by (induction A arbitrary: p) simp_all

lemma no_pair_free: "d \<notin> set v \<Longrightarrow> no_pair c d p v"
  by (induction v arbitrary: p) auto

lemma re_match_head:
  "re_match la (One (Chr c) # One (Chr d) # is) st s = Some n \<Longrightarrow>
     \<exists>t. s = c # d # t"
  by (cases s; cases "tl s") (auto split: if_splits)

lemma re_sub_scan_st:
  "re_sub_scan la (One a # is) repl st s = re_sub_scan la (One a # is) repl False s"
  by (cases s) simp_all

lemma re_sub_scan_skip:
  assumes "no_pair c d p P" and "last (p # P) \<noteq> c"
  shows "re_sub_scan la (One (Chr c) # One (Chr d) # is) repl st (P @ U) =
         P @ re_sub_scan la (One (Chr c) # One (Chr d) # is) repl False U"
  using assms
proof (induction P arbitrary: p st)
  case Nil
  then show ?case by (simp add: re_sub_scan_st [of la _ _ repl st])
next
  case (Cons x P)
  have nm: "re_match la (One (Chr c) # One (Chr d) # is) st (x # P @ U) = None"
  proof (cases "re_match la (One (Chr c) # One (Chr d) # is) st (x # P @ U)")
    case None
    then show ?thesis .
  next
    case (Some n)
    from re_match_head [OF Some] obtain t where t: "x # P @ U = c # d # t" by blast
    then have xc: "x = c" by simp
    show ?thesis
    proof (cases P)
      case Nil
      with Cons.prems(2) xc show ?thesis by simp
    next
      case (Cons y P')
      with t have "y = d" by simp
      with Cons Cons.prems(1) xc show ?thesis by simp
    qed
  qed
  from Cons.prems have "no_pair c d x P" "last (x # P) \<noteq> c" by auto
  from Cons.IH [OF this] nm show ?case by simp
qed

lemma has_sub_pair_Cons:
  "has_sub [c, d] (x # s) = ((x = c \<and> s \<noteq> [] \<and> hd s = d) \<or> has_sub [c, d] s)"
  by (cases s) auto

lemma has_sub_skip:
  assumes "no_pair c d p P" and "last (p # P) \<noteq> c"
  shows "has_sub [c, d] (P @ U) = has_sub [c, d] U"
  using assms
proof (induction P arbitrary: p)
  case Nil
  then show ?case by simp
next
  case (Cons x P)
  from Cons.prems have np: "no_pair c d x P" and l: "last (x # P) \<noteq> c" by auto
  have "\<not> (x = c \<and> P @ U \<noteq> [] \<and> hd (P @ U) = d)"
  proof (cases P)
    case Nil
    with l show ?thesis by simp
  next
    case (Cons y P')
    with np show ?thesis by auto
  qed
  then have "has_sub [c, d] (x # P @ U) = has_sub [c, d] (P @ U)"
    by (subst has_sub_pair_Cons) blast
  then show ?case using Cons.IH [OF np l] by simp
qed

lemma findall_ref_cls: "k \<in> set (findall_ref sg cls s) \<Longrightarrow> \<forall>c \<in> set k. cls c"
proof (induction sg cls s rule: findall_ref.induct)
  case (4 sg cls c d e s)
  then show ?case by (auto split: if_splits dest: set_takeWhileD)
qed simp_all

lemma findall_ref_has_sub: "findall_ref sg cls s \<noteq> [] \<Longrightarrow> has_sub [sg, CHR ''$''] s"
proof (induction sg cls s rule: findall_ref.induct)
  case (4 sg cls c d e s)
  show ?case
  proof (cases "\<not> isword c \<and> d = sg \<and> e = CHR ''$''")
    case True
    then show ?thesis by simp
  next
    case False
    with 4 have "has_sub [sg, CHR ''$''] (d # e # s)" by auto
    then show ?thesis by simp
  qed
qed simp_all

subsection \<open>The annotation stage\<close>

lemma str_nat_digits: "set (str_nat n) \<subseteq> set ''0123456789''"
proof (induction n rule: str_nat.induct)
  case (1 n)
  have d: "digit_chr k \<in> set ''0123456789''" if "k < 10" for k
    unfolding digit_chr_def using that by (intro nth_mem) simp
  show ?case
  proof (cases "n < 10")
    case True
    then show ?thesis using d [of n] by (subst str_nat.simps) simp
  next
    case False
    then show ?thesis using "1.IH" d [of "n mod 10"] by (subst str_nat.simps) simp
  qed
qed

lemma str_nat_no_dollar: "CHR ''$'' \<notin> set (str_nat n)"
proof
  assume "CHR ''$'' \<in> set (str_nat n)"
  with str_nat_digits have "CHR ''$'' \<in> set ''0123456789''" by blast
  then show False by simp
qed

lemma str_int_no_dollar: "CHR ''$'' \<notin> set (str_int i)"
  by (simp add: str_int_def str_nat_no_dollar)

lemma set_join: "set (join sep xs) \<subseteq> set sep \<union> (\<Union>x \<in> set xs. set x)"
  by (induction sep xs rule: join.induct) auto

lemma info_snippet_no_dollar: "CHR ''$'' \<notin> set k \<Longrightarrow> CHR ''$'' \<notin> set (info_snippet k)"
  by (simp add: info_snippet_def)

lemma info_prologue_no_pair:
  assumes "\<forall>k \<in> set keys. CHR ''$'' \<notin> set k" and "c \<noteq> CHR ''(''"
  shows "no_pair c CHR ''$'' p (info_prologue info_col keys)"
proof -
  define rest where "rest = str_int info_col @ '',x,\";\"); for (i=1;i<=length(x);++i) { ''
     @ join '' '' (map info_snippet keys) @ ''} ''"
  have "CHR ''$'' \<notin> set (join '' '' (map info_snippet keys))"
    using set_join [of "'' ''" "map info_snippet keys"] assms(1) info_snippet_no_dollar by auto
  then have "CHR ''$'' \<notin> set rest" using str_int_no_dollar by (simp add: rest_def)
  then have "no_pair c CHR ''$'' CHR ''$'' rest" by (rule no_pair_free)
  moreover have "info_prologue info_col keys = ''split($'' @ rest"
    by (simp add: info_prologue_def rest_def)
  ultimately show ?thesis using assms(2) by simp
qed

lemma info_prologue_last:
  "info_prologue info_col keys \<noteq> []" "last (info_prologue info_col keys) = CHR '' ''"
  by (simp_all add: info_prologue_def)

lemma info_rename_word:
  assumes "\<forall>k \<in> set keys. list_all isword k"
  shows "info_rename keys s = Inr (info_renamed keys s)"
  using assms
proof (induction keys arbitrary: s)
  case Nil
  then show ?case by simp
next
  case (Cons k keys)
  then have "list_all isword k" by simp
  then have "re_parse (''I'' @ [bslash] @ ''$'' @ k) = Inr (lits (''I$'' @ k))"
    by (rule info_pattern_lits)
  then show ?case using Cons by (simp add: re_sub_def)
qed

lemma info_renamed_skip:
  assumes "no_pair CHR ''I'' CHR ''$'' p P" and "last (p # P) \<noteq> CHR ''I''"
  shows "info_renamed keys (P @ U) = P @ info_renamed keys U"
proof (induction keys arbitrary: U)
  case Nil
  then show ?case by simp
next
  case (Cons k keys)
  have "re_sub_scan False (lits (''I$'' @ k)) (''INFO_'' @ k) True (P @ U) =
        P @ re_sub_scan False (lits (''I$'' @ k)) (''INFO_'' @ k) True U"
    using re_sub_scan_skip [OF assms, of False "lits k" "''INFO_'' @ k" True U]
    by (simp add: lits_def re_sub_scan_st [of False _ _ _ True])
  then show ?case using Cons by simp
qed

lemma word_no_dollar: "list_all isword k \<Longrightarrow> CHR ''$'' \<notin> set k"
  using isword_not_special by (auto simp: list_all_iff)

lemma info_stage_text:
  assumes "valid_iter (set_iter ev)"
    and "info_stage ev info_col perline = Inr (info_keys, perline')"
  shows "set info_keys = set (findall_ref CHR ''I'' isword perline) \<and> distinct info_keys \<and>
         perline' = (if has_sub ''I$'' perline then info_prologue info_col info_keys else [])
                    @ info_renamed info_keys perline"
proof -
  define keys where "keys = set_iter ev (findall_ref CHR ''I'' isword perline)"
  have sk: "set keys = set (findall_ref CHR ''I'' isword perline)" and dk: "distinct keys"
    using assms(1) by (simp_all add: keys_def valid_iter_def)
  have w: "\<forall>k \<in> set keys. list_all isword k"
    using sk findall_ref_cls [of _ "CHR ''I''" isword perline] by (auto simp: list_all_iff)
  show ?thesis
  proof (cases "has_sub ''I$'' perline")
    case True
    have np: "no_pair CHR ''I'' CHR ''$'' CHR '' '' (info_prologue info_col keys)"
      using w word_no_dollar by (intro info_prologue_no_pair) auto
    have l: "last (CHR '' '' # info_prologue info_col keys) \<noteq> CHR ''I''"
      by (simp add: info_prologue_last)
    have r: "info_rename keys (info_prologue info_col keys @ perline) =
          Inr (info_prologue info_col keys @ info_renamed keys perline)"
      using info_rename_word [OF w] info_renamed_skip [OF np l] by simp
    have "info_stage ev info_col perline =
          Inr (keys, info_prologue info_col keys @ info_renamed keys perline)"
      unfolding info_stage_def Let_def keys_def [symmetric] using True r by simp
    with assms(2) have "Inr (info_keys, perline') =
        (Inr (keys, info_prologue info_col keys @ info_renamed keys perline) :: error + _)"
      by (rule trans [OF sym])
    then have e: "info_keys = keys"
      "perline' = info_prologue info_col keys @ info_renamed keys perline"
      by (simp_all only: sum.inject prod.inject)
    show ?thesis unfolding e using True sk dk by simp
  next
    case False
    then have fe: "findall_ref CHR ''I'' isword perline = []"
      using findall_ref_has_sub [of "CHR ''I''" isword perline] by auto
    with sk have ke: "keys = []" by simp
    have "info_stage ev info_col perline = Inr (keys, perline)"
      unfolding info_stage_def Let_def keys_def [symmetric] using False by simp
    with assms(2) have "Inr (info_keys, perline') = (Inr (keys, perline) :: error + _)"
      by (rule trans [OF sym])
    then have e: "info_keys = keys" "perline' = perline"
      by (simp_all only: sum.inject prod.inject)
    show ?thesis unfolding e ke using False fe by simp
  qed
qed

subsection \<open>The sample objects and the child\<close>

lemma keeps_spawned_bind:
  assumes "keeps_spawned m" and "\<And>x. keeps_spawned (f x)"
  shows "keeps_spawned (io_bind m f)"
  unfolding keeps_spawned_def
proof
  fix w
  obtain w1 r where m: "m w = (w1, r)" by (cases "m w")
  have "spawned (fst (m w)) = spawned w" using assms(1) by (simp add: keeps_spawned_def)
  then have s1: "spawned w1 = spawned w" using m by simp
  show "spawned (fst (io_bind m f w)) = spawned w"
  proof (cases r)
    case (Inl e)
    with m s1 show ?thesis by (simp add: io_bind_def)
  next
    case (Inr x)
    have "spawned (fst (f x w1)) = spawned w1" using assms(2) by (simp add: keeps_spawned_def)
    with Inr m s1 show ?thesis by (simp add: io_bind_def)
  qed
qed

lemma keeps_spawned_basic:
  "keeps_spawned (io_return x)" "keeps_spawned (io_raise e)" "keeps_spawned (io_lift r)"
  "keeps_spawned (print s)"
  by (auto simp: keeps_spawned_def io_return_def io_raise_def io_lift_def print_def
      split: option.splits nat.splits)

lemma keeps_spawned_if:
  "keeps_spawned a \<Longrightarrow> keeps_spawned b \<Longrightarrow> keeps_spawned (if c then a else b)"
  by simp

lemma keeps_spawned_Sample_init: "keeps_spawned (Sample_init tok)"
  unfolding Sample_init_def Let_def
  by (intro keeps_spawned_if keeps_spawned_bind keeps_spawned_basic)

lemma keeps_spawned_sample_loop: "keeps_spawned (sample_loop debug toks acc)"
proof (induction toks arbitrary: acc)
  case Nil
  then show ?case by (simp add: keeps_spawned_basic)
next
  case (Cons t toks)
  show ?case
    unfolding sample_loop.simps Let_def
    by (intro keeps_spawned_bind keeps_spawned_if keeps_spawned_basic
        keeps_spawned_Sample_init Cons.IH)
qed

lemma keeps_spawned_print_lines: "keeps_spawned (print_lines ls)"
  by (induction ls) (auto intro: keeps_spawned_bind keeps_spawned_basic)

lemma keeps_spawnedD:
  assumes "keeps_spawned m" and "m w = (w', r)"
  shows "spawned w' = spawned w"
proof -
  have "spawned (fst (m w)) = spawned w" using assms(1) by (simp add: keeps_spawned_def)
  then show ?thesis using assms(2) by simp
qed

lemma run_engine_spawned:
  assumes "run_engine ev debug cmd w = (w', Inr u)"
  shows "spawned w' = spawned w @ [cmd]"
proof -
  define dbg where "dbg = (if debug then print (join '' '' cmd) else io_return ())"
  have kd: "keeps_spawned dbg"
    unfolding dbg_def by (intro keeps_spawned_if keeps_spawned_basic)
  obtain w1 r1 where d: "dbg w = (w1, r1)" by (cases "dbg w")
  have s1: "spawned w1 = spawned w" using keeps_spawnedD [OF kd d] .
  have run: "run_engine ev debug cmd w =
      io_bind dbg (\<lambda>_. io_bind (Popen ev cmd) (\<lambda>p. print_lines (readlines (child_out p)))) w"
    by (simp add: run_engine_def dbg_def)
  show ?thesis
  proof (cases r1)
    case (Inl e)
    with assms run d show ?thesis by (simp add: io_bind_def)
  next
    case (Inr x)
    show ?thesis
    proof (cases "run_cmd ev cmd")
      case (Inl e)
      with assms run d Inr show ?thesis by (simp add: io_bind_def Popen_def)
    next
      case (Inr p)
      with assms run d \<open>r1 = Inr x\<close>
      have "print_lines (readlines (child_out p)) (w1\<lparr>spawned := spawned w1 @ [cmd]\<rparr>) = (w', Inr u)"
        by (simp add: io_bind_def Popen_def)
      from keeps_spawnedD [OF keeps_spawned_print_lines this] s1 show ?thesis by simp
    qed
  qed
qed

lemma Sample_init_invalid_Inl:
  assumes "1 < n_sep tok"
  shows "\<exists>w' e. Sample_init tok w = (w', Inl e)"
proof -
  obtain w1 r where p: "print ''Error: format should be S$[ID]$[FMT]'' w = (w1, r)"
    by (cases "print ''Error: format should be S$[ID]$[FMT]'' w")
  have "Sample_init tok w =
        io_bind (print ''Error: format should be S$[ID]$[FMT]'') (\<lambda>_. io_raise (SystemExit 1)) w"
    using assms by (simp add: Sample_init_def n_sep_def length_split_on Let_def)
  then show ?thesis using p by (cases r) (simp_all add: io_bind_def io_raise_def)
qed

lemma Sample_init_sample_of:
  assumes "n_sep tok \<le> 1"
  shows "\<exists>s_obj. Sample_init tok w = (w, Inr s_obj) \<and> clean s_obj = sample_of tok"
proof (cases "n_sep tok = 0")
  case True
  then have t: "takeWhile (\<lambda>c. c \<noteq> CHR ''$'') tok = tok"
    by (auto simp: n_sep_def count_list_0_iff takeWhile_eq_all_conv)
  show ?thesis using Sample_init_whole [OF True, of w] True
    by (simp add: sample_of_def t)
next
  case False
  with assms have one: "n_sep tok = 1" by simp
  then show ?thesis using Sample_init_subfield [OF one, of w] by (simp add: sample_of_def)
qed

lemma sample_loop_ok:
  assumes "sample_loop debug toks acc w = (w', Inr sq)"
  shows "sq = acc @ map sample_of toks \<and> (\<forall>t \<in> set toks. n_sep t \<le> 1)"
  using assms
proof (induction toks arbitrary: acc w)
  case Nil
  then show ?case by (simp add: io_return_def)
next
  case (Cons t toks)
  have le: "n_sep t \<le> 1"
  proof (rule ccontr)
    assume "\<not> n_sep t \<le> 1"
    then have "1 < n_sep t" by simp
    from Sample_init_invalid_Inl [OF this, of w] obtain w1 e
      where "Sample_init t w = (w1, Inl e)" by blast
    with Cons.prems show False by (simp add: io_bind_def)
  qed
  from Sample_init_sample_of [OF le, of w] obtain s_obj
    where s: "Sample_init t w = (w, Inr s_obj)" and c: "clean s_obj = sample_of t" by blast
  define dbg where "dbg =
     (if debug then
        io_bind (print (''name_raw: '' @ name_raw (sample_of t))) (\<lambda>_.
        io_bind (print (''name_clean: '' @ the (name_clean (sample_of t)))) (\<lambda>_.
        print (''name_escaped: '' @ the (name_escaped (sample_of t)))))
      else io_return ())"
  have step: "sample_loop debug (t # toks) acc w =
     io_bind dbg (\<lambda>_. sample_loop debug toks (acc @ [sample_of t])) w"
    using s c by (simp add: io_bind_def [of "Sample_init t"] Let_def dbg_def)
  obtain w1 r1 where d: "dbg w = (w1, r1)" by (cases "dbg w")
  show ?case
  proof (cases r1)
    case (Inl e)
    with Cons.prems step d show ?thesis by (simp add: io_bind_def)
  next
    case (Inr u)
    with Cons.prems step d
    have "sample_loop debug toks (acc @ [sample_of t]) w1 = (w', Inr sq)"
      by (simp add: io_bind_def)
    from Cons.IH [OF this] le show ?thesis by simp
  qed
qed

subsection \<open>The sample prologues\<close>

lemma sample_of_fields:
  "name_raw (sample_of tok) = takeWhile (\<lambda>c. c \<noteq> CHR ''$'') tok"
  "field (sample_of tok) =
     (if n_sep tok = 0 then ''ALL'' else tl (dropWhile (\<lambda>c. c \<noteq> CHR ''$'') tok))"
  "name_clean (sample_of tok) =
     Some (replace_chr CHR ''.'' ''_'' (replace_chr CHR ''-'' ''_'' (takeWhile (\<lambda>c. c \<noteq> CHR ''$'') tok)))"
  "name_escaped (sample_of tok) =
     Some (replace_chr CHR ''.'' [bslash, CHR ''.'']
            (replace_chr CHR ''-'' [bslash, CHR ''-''] (takeWhile (\<lambda>c. c \<noteq> CHR ''$'') tok)))"
  by (simp_all add: sample_of_def clean_def gremlin_list_def)

lemma set_replace_chr: "set (replace_chr c new s) \<subseteq> set s \<union> set new"
  by (induction s) (auto simp: replace_chr_Cons replace_chr_Nil)

lemma takeWhile_no_dollar: "CHR ''$'' \<notin> set (takeWhile (\<lambda>c. c \<noteq> CHR ''$'') tok)"
  by (auto dest: set_takeWhileD)

lemma sample_of_no_dollar:
  assumes "n_sep tok \<le> 1"
  shows "CHR ''$'' \<notin> set (name_raw (sample_of tok))"
    and "CHR ''$'' \<notin> set (field (sample_of tok))"
    and "CHR ''$'' \<notin> set (the (name_clean (sample_of tok)))"
proof -
  show "CHR ''$'' \<notin> set (name_raw (sample_of tok))"
    by (simp add: sample_of_fields takeWhile_no_dollar)
  show "CHR ''$'' \<notin> set (field (sample_of tok))"
  proof (cases "n_sep tok = 0")
    case True
    then show ?thesis by (simp add: sample_of_fields)
  next
    case False
    with assms have one: "n_sep tok = 1" by simp
    define f where "f = tl (dropWhile (\<lambda>c. c \<noteq> CHR ''$'') tok)"
    define n where "n = takeWhile (\<lambda>c. c \<noteq> CHR ''$'') tok"
    have "tok = n @ ''$'' @ f" using tok_decompose [OF one] by (simp add: n_def f_def)
    then have "count_list tok CHR ''$'' = count_list n CHR ''$'' + 1 + count_list f CHR ''$''"
      by (metis add.assoc count_list.simps(2) count_list_append append_Cons append_Nil add.commute)
    with one have "count_list f CHR ''$'' = 0" by (simp add: n_sep_def)
    then have "CHR ''$'' \<notin> set f" by (simp add: count_list_0_iff)
    with False show ?thesis by (simp add: sample_of_fields f_def)
  qed
  have "set (replace_chr CHR ''.'' ''_'' (replace_chr CHR ''-'' ''_'' (takeWhile (\<lambda>c. c \<noteq> CHR ''$'') tok)))
        \<subseteq> set (takeWhile (\<lambda>c. c \<noteq> CHR ''$'') tok) \<union> set ''_''"
    using set_replace_chr [of "CHR ''.''" "''_''"] set_replace_chr [of "CHR ''-''" "''_''"]
    by fastforce
  then show "CHR ''$'' \<notin> set (the (name_clean (sample_of tok)))"
    using takeWhile_no_dollar [of tok] by (auto simp: sample_of_fields)
qed

lemma sample_prologue_no_pair:
  assumes "CHR ''$'' \<notin> set (name_raw s)" and "CHR ''$'' \<notin> set (field s)"
    and "CHR ''$'' \<notin> set (the (name_clean s))"
  shows "no_pair CHR ''S'' CHR ''$'' p (sample_prologue ssc s)"
  using assms str_int_no_dollar [of ssc]
  by (simp add: sample_prologue_def no_pair_append no_pair_free del: last.simps)

lemma sample_prologue_last:
  "sample_prologue ssc s \<noteq> []" "last (sample_prologue ssc s) = CHR '' ''"
  by (simp_all add: sample_prologue_def)

subsection \<open>The sample rename passes over the prologues\<close>

lemma re_parse_acc_keeps:
  "re_parse_acc acc s = Inr is \<Longrightarrow> acc = a # acc' \<Longrightarrow> \<exists>rest. is = rev acc' @ rest"
proof (induction acc s arbitrary: a acc' rule: re_parse_acc.induct)
  case (1 acc)
  then show ?case by auto
next
  case (2 acc c s)
  show ?case
  proof (cases "c = bslash")
    case True
    with "2.prems"(1) obtain d s' where s: "s = d # s'"
      and r: "re_parse_acc (One (Chr d) # acc) s' = Inr is"
      by (cases s) auto
    from "2.IH"(1) [OF True s r refl]
    obtain rest where "is = rev acc @ rest" by auto
    with "2.prems"(2) show ?thesis by simp
  next
    case nb: False
    show ?thesis
    proof (cases "c = CHR ''*''")
      case True
      with nb "2.prems" obtain x where a: "a = One x"
        and r: "re_parse_acc (Star x # acc') s = Inr is"
        by (cases a) (auto split: list.splits item.splits)
      from "2.IH"(2) [OF nb True "2.prems"(2) a r refl]
      show ?thesis .
    next
      case ns: False
      show ?thesis
      proof (cases "c = CHR ''.''")
        case True
        with nb ns "2.prems" have r: "re_parse_acc (One Dot # acc) s = Inr is" by simp
        from "2.IH"(3) [OF nb ns True r refl]
        obtain rest where "is = rev acc @ rest" by auto
        with "2.prems"(2) show ?thesis by simp
      next
        case nd: False
        show ?thesis
        proof (cases "c = CHR ''^''")
          case True
          with nb ns nd "2.prems" have r: "re_parse_acc (Bol # acc) s = Inr is" by simp
          from "2.IH"(4) [OF nb ns nd True r refl]
          obtain rest where "is = rev acc @ rest" by auto
          with "2.prems"(2) show ?thesis by simp
        next
          case False
          with nb ns nd "2.prems" have r: "re_parse_acc (One (Chr c) # acc) s = Inr is" by simp
          from "2.IH"(5) [OF nb ns nd False r refl]
          obtain rest where "is = rev acc @ rest" by auto
          with "2.prems"(2) show ?thesis by simp
        qed
      qed
    qed
  qed
qed

lemma re_parse_acc_keeps_all:
  assumes "re_parse_acc acc s = Inr is" and "s = [] \<or> hd s \<noteq> CHR ''*''"
  shows "\<exists>rest. is = rev acc @ rest"
proof (cases s)
  case Nil
  with assms(1) show ?thesis by simp
next
  case (Cons c s')
  with assms(2) have ns: "c \<noteq> CHR ''*''" by simp
  show ?thesis
  proof (cases "c = bslash")
    case True
    with assms(1) Cons obtain d s'' where "s' = d # s''"
      and r: "re_parse_acc (One (Chr d) # acc) s'' = Inr is"
      by (cases s') auto
    from re_parse_acc_keeps [OF r refl] show ?thesis by simp
  next
    case False
    with assms(1) Cons ns obtain a where r: "re_parse_acc (a # acc) s' = Inr is"
      by (auto split: if_splits)
    from re_parse_acc_keeps [OF r refl] show ?thesis by simp
  qed
qed

lemma prefix_star_replace:
  assumes "c \<noteq> CHR ''*''" and "new \<noteq> []" and "hd new \<noteq> CHR ''*''"
  shows "prefix ''*'' (replace_chr c new n) = prefix ''*'' n"
proof (cases n)
  case Nil
  then show ?thesis by (simp add: replace_chr_Nil)
next
  case (Cons x xs)
  from assms(2) obtain y ys where new: "new = y # ys" by (cases new) auto
  with assms(3) have "y \<noteq> CHR ''*''" by simp
  with Cons new assms(1) show ?thesis by (auto simp: replace_chr_Cons)
qed

lemma star_safe_cond: "star_safe tok \<Longrightarrow> star_cond (sample_of tok)"
  by (auto simp: star_safe_def star_cond_def sample_of_fields Let_def prefix_star_replace
      replace_chr_Cons replace_chr_Nil)

lemma not_prefix_star: "\<not> prefix ''*'' m \<Longrightarrow> m = [] \<or> hd m \<noteq> CHR ''*''"
  by (cases m) auto

lemma sample_pattern_head:
  assumes "star_cond s" and "re_parse (sample_pattern s) = Inr is"
  shows "\<exists>rest. is = One (Chr CHR ''S'') # One (Chr CHR ''$'') # rest"
proof -
  obtain more where p: "sample_pattern s = ''S'' @ [bslash] @ ''$'' @ more"
    and m: "more = [] \<or> hd more \<noteq> CHR ''*''"
  proof (cases "the (name_clean s) = ''*''")
    case True
    show ?thesis
    proof (cases "field s = ''ALL''")
      case True
      with \<open>the (name_clean s) = ''*''\<close> show ?thesis
        by (intro that [of "[bslash] @ ''*''"]) (simp_all add: sample_pattern_def)
    next
      case False
      with \<open>the (name_clean s) = ''*''\<close> show ?thesis
        by (intro that [of "[bslash] @ ''*'' @ [bslash] @ ''$'' @ field s"])
           (simp_all add: sample_pattern_def)
    qed
  next
    case False
    with assms(1) have np: "\<not> prefix ''*'' (the (name_escaped s))" by (simp add: star_cond_def)
    show ?thesis
    proof (cases "field s = ''ALL''")
      case True
      with False not_prefix_star [OF np] show ?thesis
        by (intro that [of "the (name_escaped s)"]) (simp_all add: sample_pattern_def)
    next
      case fa: False
      have "the (name_escaped s) @ bslash # CHR ''$'' # field s = [] \<or>
            hd (the (name_escaped s) @ bslash # CHR ''$'' # field s) \<noteq> CHR ''*''"
        using not_prefix_star [OF np] by (cases "the (name_escaped s)") auto
      with False fa show ?thesis
        by (intro that [of "the (name_escaped s) @ bslash # CHR ''$'' # field s"])
           (simp_all add: sample_pattern_def)
    qed
  qed
  from assms(2) p have "re_parse_acc [One (Chr CHR ''$''), One (Chr CHR ''S'')] more = Inr is"
    by (simp add: re_parse_def)
  from re_parse_acc_keeps_all [OF this m] show ?thesis by simp
qed

lemma sample_rename_skip:
  assumes "\<forall>s \<in> set sq. star_cond s" and "no_pair CHR ''S'' CHR ''$'' p P"
    and "last (p # P) \<noteq> CHR ''S''"
  shows "sample_rename sq (P @ U) =
           (case sample_rename sq U of Inl e \<Rightarrow> Inl e | Inr U' \<Rightarrow> Inr (P @ U'))"
  using assms(1)
proof (induction sq arbitrary: U)
  case Nil
  then show ?case by simp
next
  case (Cons s sq)
  show ?case
  proof (cases "re_parse (sample_pattern s)")
    case (Inl e)
    then show ?thesis by (simp add: re_sub_def)
  next
    case (Inr items)
    from Cons.prems have "star_cond s" by simp
    from sample_pattern_head [OF this Inr] obtain rest
      where items: "items = One (Chr CHR ''S'') # One (Chr CHR ''$'') # rest" by blast
    have "re_sub_scan True items (sample_var s) True (P @ U) =
          P @ re_sub_scan True items (sample_var s) True U"
      unfolding items
      using re_sub_scan_skip [OF assms(2,3), of True rest "sample_var s" True U]
      by (simp add: re_sub_scan_st [of True _ _ _ True])
    then show ?thesis using Inr Cons by (simp add: re_sub_def)
  qed
qed

lemma concat_prologues_no_pair:
  assumes "\<forall>s \<in> set sq. CHR ''$'' \<notin> set (name_raw s) \<and> CHR ''$'' \<notin> set (field s) \<and>
             CHR ''$'' \<notin> set (the (name_clean s))"
  shows "no_pair CHR ''S'' CHR ''$'' CHR '' '' (concat (map (sample_prologue ssc) sq)) \<and>
         last (CHR '' '' # concat (map (sample_prologue ssc) sq)) = CHR '' ''"
  using assms
proof (induction sq rule: rev_induct)
  case Nil
  then show ?case by simp
next
  case (snoc s sq)
  then have np: "no_pair CHR ''S'' CHR ''$'' CHR '' '' (sample_prologue ssc s)"
    by (intro sample_prologue_no_pair) simp_all
  from snoc show ?case
    using np by (simp add: no_pair_append sample_prologue_last del: last.simps)
       (simp add: sample_prologue_last)
qed

subsection \<open>The scan for annotation keys, and pieces of the generated text\<close>

lemma dropWhile_barrier:
  "\<not> P c \<Longrightarrow> dropWhile P (xs @ c # ys) = dropWhile P xs @ c # ys"
  by (induction xs) simp_all

lemma findall_ref_empty_key:
  assumes "\<not> isword c" and "c \<noteq> CHR ''$''" and "post = [] \<or> \<not> isword (hd post)"
  shows "[] \<in> set (findall_ref CHR ''I'' isword (pre @ c # ''I$'' @ post))"
proof (induction pre rule: length_induct)
  case (1 pre)
  have tw: "takeWhile isword post = []" using assms(3) by (cases post) auto
  have base: "[] \<in> set (findall_ref CHR ''I'' isword (c # ''I$'' @ post))"
    using assms(1) tw by simp
  have ci: "c \<noteq> CHR ''I''" using assms(1) by (auto simp: isword_def isalnum_ascii_def Let_def)
  show ?case
  proof (cases pre)
    case Nil
    with base show ?thesis by simp
  next
    case p1: (Cons x pre1)
    show ?thesis
    proof (cases pre1)
      case Nil
      with p1 base ci show ?thesis by simp
    next
      case p2: (Cons y pre2)
      show ?thesis
      proof (cases pre2)
        case Nil
        have "findall_ref CHR ''I'' isword ([x, y] @ c # ''I$'' @ post) =
              findall_ref CHR ''I'' isword ([y] @ c # ''I$'' @ post)"
          using assms(2) by simp
        moreover have "[] \<in> set (findall_ref CHR ''I'' isword ([y] @ c # ''I$'' @ post))"
        proof -
          have "length [y] < length pre" using p1 p2 by simp
          with "1.IH" show ?thesis by blast
        qed
        ultimately show ?thesis using p1 p2 Nil by simp
      next
        case p3: (Cons z pre3)
        show ?thesis
        proof (cases "\<not> isword x \<and> y = CHR ''I'' \<and> z = CHR ''$''")
          case True
          have len: "length (dropWhile isword pre3) < length pre"
            using p1 p2 p3 length_dropWhile_le [of isword pre3] by simp
          have "dropWhile isword (pre3 @ c # ''I$'' @ post) =
                dropWhile isword pre3 @ c # ''I$'' @ post"
            using assms(1) by (rule dropWhile_barrier)
          then have "findall_ref CHR ''I'' isword (pre @ c # ''I$'' @ post) =
                takeWhile isword (pre3 @ c # ''I$'' @ post) #
                findall_ref CHR ''I'' isword (dropWhile isword pre3 @ c # ''I$'' @ post)"
            using True p1 p2 p3 by simp
          moreover have "[] \<in> set (findall_ref CHR ''I'' isword
                (dropWhile isword pre3 @ c # ''I$'' @ post))"
            using "1.IH" len by blast
          ultimately show ?thesis by simp
        next
          case False
          then have "findall_ref CHR ''I'' isword (pre @ c # ''I$'' @ post) =
                findall_ref CHR ''I'' isword ((y # z # pre3) @ c # ''I$'' @ post)"
            using p1 p2 p3 by auto
          moreover have "[] \<in> set (findall_ref CHR ''I'' isword ((y # z # pre3) @ c # ''I$'' @ post))"
          proof -
            have "length (y # z # pre3) < length pre" using p1 p2 p3 by simp
            with "1.IH" show ?thesis by blast
          qed
          ultimately show ?thesis by simp
        qed
      qed
    qed
  qed
qed

lemma join_split:
  "k \<in> set xs \<Longrightarrow> \<exists>a b. join sep (map f xs) = a @ f k @ b"
proof (induction xs)
  case Nil
  then show ?case by simp
next
  case (Cons x xs)
  show ?case
  proof (cases "k = x")
    case True
    show ?thesis
    proof (cases xs)
      case Nil
      with True show ?thesis by (intro exI [of _ "[]"]) simp
    next
      case (Cons y ys)
      with True show ?thesis
        by (intro exI [of _ "[]"] exI [of _ "sep @ join sep (map f (y # ys))"]) simp
    qed
  next
    case False
    with Cons obtain a b where ab: "join sep (map f xs) = a @ f k @ b" by auto
    from False Cons.prems obtain y ys where xs: "xs = y # ys" by (cases xs) auto
    have "join sep (map f (x # xs)) = (f x @ sep @ a) @ f k @ b"
      using ab xs by simp
    then show ?thesis by blast
  qed
qed

lemma concat_split:
  "k \<in> set xs \<Longrightarrow> \<exists>a b. concat (map f xs) = a @ f k @ b"
proof -
  assume "k \<in> set xs"
  then obtain ys zs where "xs = ys @ k # zs" by (auto simp: in_set_conv_decomp)
  then have "concat (map f xs) = concat (map f ys) @ f k @ concat (map f zs)" by simp
  then show ?thesis by blast
qed

lemma info_prologue_split:
  assumes "k \<in> set info_keys"
  shows "\<exists>a b. info_prologue info_col info_keys = a @ info_snippet k @ b"
proof -
  from join_split [OF assms, of "'' ''" info_snippet] obtain a b
    where "join '' '' (map info_snippet info_keys) = a @ info_snippet k @ b" by blast
  then have "info_prologue info_col info_keys =
      (''split($'' @ str_int info_col @ '',x,\";\"); for (i=1;i<=length(x);++i) { '' @ a)
      @ info_snippet k @ (b @ ''} '')"
    by (simp add: info_prologue_def)
  then show ?thesis by blast
qed

lemma resets_split:
  assumes "k \<in> set info_keys"
  shows "\<exists>pre post. concat (map sample_reset (rev sq)) @ concat (map info_reset (rev info_keys)) =
           pre @ info_reset k @ post"
proof -
  from assms have "k \<in> set (rev info_keys)" by simp
  from concat_split [OF this, of info_reset] obtain a b
    where "concat (map info_reset (rev info_keys)) = a @ info_reset k @ b" by blast
  then have "concat (map sample_reset (rev sq)) @ concat (map info_reset (rev info_keys)) =
      (concat (map sample_reset (rev sq)) @ a) @ info_reset k @ b" by simp
  then show ?thesis by blast
qed

subsection \<open>The program handed to the child\<close>

lemma rename_stage_skip:
  assumes "\<forall>s \<in> set sq. star_cond s" and "no_pair CHR ''S'' CHR ''$'' p P"
    and "last (p # P) \<noteq> CHR ''S''"
  shows "rename_stage sq (P @ U) =
           (case rename_stage sq U of Inl e \<Rightarrow> Inl e | Inr U' \<Rightarrow> Inr (P @ U'))"
proof -
  have "has_sub ''S$'' (P @ U) = has_sub ''S$'' U"
    using has_sub_skip [OF assms(2,3), of U] by simp
  then show ?thesis using sample_rename_skip [OF assms] by (simp add: rename_stage_def)
qed

lemma last_Cons_append: "last (p # A @ B) = last (last (p # A) # B)"
  by (cases "B = []") simp_all

lemma assemble_text:
  \<open>assemble header info_col begin (reset_stage info_keys sq body) end =
     ''BEGIN {FS="'' @ [bslash] @ ''t"; OFS="'' @ [bslash] @ ''t"; '' @ begin @ ''} {''
     @ header_open header (info_col + 2) @ format_split (info_col + 1)
     @ concat (map sample_reset (rev sq)) @ concat (map info_reset (rev info_keys))
     @ body @ ''}} END {'' @ end @ ''}''\<close>
  by (simp add: assemble_def reset_stage_def fold_prepend Let_def)

lemma debug_prints_keeps:
  "keeps_spawned
     (if debug then
        io_bind (print (''begin: '' @ begin)) (\<lambda>_.
        io_bind (print (''perline: '' @ perline)) (\<lambda>_.
        print (''end: '' @ end)))
      else io_return ())"
  by (intro keeps_spawned_if keeps_spawned_bind keeps_spawned_basic)

lemma io_bind_Inr:
  assumes "io_bind m f w = (w', Inr y)"
  shows "\<exists>w1 x. m w = (w1, Inr x) \<and> f x w1 = (w', Inr y)"
proof -
  obtain w1 r where m: "m w = (w1, r)" by (cases "m w")
  show ?thesis
  proof (cases r)
    case (Inl e)
    with assms m show ?thesis by (simp add: io_bind_def)
  next
    case (Inr x)
    with assms m show ?thesis by (simp add: io_bind_def)
  qed
qed

lemma io_lift_Inr: "io_lift r w = (w', Inr x) \<Longrightarrow> r = Inr x \<and> w' = w"
  by (simp add: io_lift_def)

lemma vawk_spawn:
  assumes v: "vawk ev debug header var info_col (raw # rest) vcf_file w = (w', Inr u)"
    and it: "valid_iter (set_iter ev)"
    and p: "parse raw = Inr (begin, perline, end)"
    and i: "info_stage ev info_col perline = Inr (info_keys, perline1)"
    and sq: "sq = map sample_of (set_iter ev (findall_ref CHR ''S'' is_sample_chr perline1))"
  shows \<open>(\<forall>tok \<in> set (findall_ref CHR ''S'' is_sample_chr perline1). n_sep tok \<le> 1) \<and>
    (\<exists>body.
       rename_stage sq
         (concat (map (sample_prologue (info_col + 2)) (rev sq))
          @ (if has_sub ''I$'' perline then info_prologue info_col info_keys else [])
          @ info_renamed info_keys perline) = Inr body \<and>
       spawned w' = spawned w @
         [[''gawk''] @ concat (map (\<lambda>v. [''-v'', v]) var) @
          [''BEGIN {FS="'' @ [bslash] @ ''t"; OFS="'' @ [bslash] @ ''t"; '' @ begin @ ''} {''
           @ header_open header (info_col + 2) @ format_split (info_col + 1)
           @ concat (map sample_reset (rev sq)) @ concat (map info_reset (rev info_keys))
           @ body @ ''}} END {'' @ end @ ''}'',
           vcf_file]])\<close>
proof -
  define toks where "toks = set_iter ev (findall_ref CHR ''S'' is_sample_chr perline1)"
  from v [unfolded vawk_unfold [OF p i]] obtain w1 x1 where
    d: "(if debug then
            io_bind (print (''begin: '' @ begin)) (\<lambda>_.
            io_bind (print (''perline: '' @ perline)) (\<lambda>_.
            print (''end: '' @ end)))
          else io_return ()) w = (w1, Inr x1)"
    and r1: "io_bind (sample_loop debug toks [])
       (\<lambda>sample_queries.
          io_bind
            (io_lift (rename_stage sample_queries
               (sample_prologues (info_col + 2) sample_queries perline1)))
            (\<lambda>perline.
               run_engine ev debug
                 ([''gawk''] @ concat (map (\<lambda>v. [''-v'', v]) var)
                  @ [assemble header info_col begin
                       (reset_stage info_keys sample_queries perline) end,
                     vcf_file]))) w1 = (w', Inr u)"
    unfolding toks_def by (blast dest: io_bind_Inr)
  from io_bind_Inr [OF r1] obtain w2 sq' where
    l: "sample_loop debug toks [] w1 = (w2, Inr sq')"
    and r2: "io_bind
            (io_lift (rename_stage sq' (sample_prologues (info_col + 2) sq' perline1)))
            (\<lambda>perline.
               run_engine ev debug
                 ([''gawk''] @ concat (map (\<lambda>v. [''-v'', v]) var)
                  @ [assemble header info_col begin (reset_stage info_keys sq' perline) end,
                     vcf_file])) w2 = (w', Inr u)"
    by blast
  from sample_loop_ok [OF l] have sq': "sq' = sq" and le: "\<forall>t \<in> set toks. n_sep t \<le> 1"
    by (simp_all add: sq toks_def)
  from io_bind_Inr [OF r2] obtain w3 body where
    l3: "io_lift (rename_stage sq (sample_prologues (info_col + 2) sq perline1)) w2 = (w3, Inr body)"
    and r3: "run_engine ev debug
                 ([''gawk''] @ concat (map (\<lambda>v. [''-v'', v]) var)
                  @ [assemble header info_col begin (reset_stage info_keys sq body) end,
                     vcf_file]) w3 = (w', Inr u)"
    unfolding sq' by blast
  from io_lift_Inr [OF l3] have
    b: "rename_stage sq (sample_prologues (info_col + 2) sq perline1) = Inr body" and w3: "w3 = w2"
    by simp_all
  have s1: "spawned w1 = spawned w" using keeps_spawnedD [OF debug_prints_keeps d] .
  have s2: "spawned w2 = spawned w1" using keeps_spawnedD [OF keeps_spawned_sample_loop l] .
  have s3: "spawned w' = spawned w @
      [[''gawk''] @ concat (map (\<lambda>v. [''-v'', v]) var)
       @ [assemble header info_col begin (reset_stage info_keys sq body) end, vcf_file]]"
    using run_engine_spawned [OF r3] s1 s2 w3 by simp
  have tx: "sample_prologues (info_col + 2) sq perline1 =
      concat (map (sample_prologue (info_col + 2)) (rev sq))
      @ (if has_sub ''I$'' perline then info_prologue info_col info_keys else [])
      @ info_renamed info_keys perline"
    using info_stage_text [OF it i] by (simp add: sample_prologues_def fold_prepend)
  have "\<forall>tok \<in> set (findall_ref CHR ''S'' is_sample_chr perline1). n_sep tok \<le> 1"
    using le it by (simp add: toks_def valid_iter_def)
  moreover have "\<exists>body.
       rename_stage sq
         (concat (map (sample_prologue (info_col + 2)) (rev sq))
          @ (if has_sub ''I$'' perline then info_prologue info_col info_keys else [])
          @ info_renamed info_keys perline) = Inr body \<and>
       spawned w' = spawned w @
         [[''gawk''] @ concat (map (\<lambda>v. [''-v'', v]) var) @
          [''BEGIN {FS=\"'' @ [bslash] @ ''t\"; OFS=\"'' @ [bslash] @ ''t\"; '' @ begin @ ''} {''
           @ header_open header (info_col + 2) @ format_split (info_col + 1)
           @ concat (map sample_reset (rev sq)) @ concat (map info_reset (rev info_keys))
           @ body @ ''}} END {'' @ end @ ''}'',
           vcf_file]]"
    using b s3 unfolding tx assemble_text by (intro exI [of _ body]) simp
  ultimately show ?thesis by blast
qed

lemma prologues_kept:
  assumes it: "valid_iter (set_iter ev)"
    and i: "info_stage ev info_col perline = Inr (info_keys, perline1)"
    and sq: "sq = map sample_of (set_iter ev (findall_ref CHR ''S'' is_sample_chr perline1))"
    and le: "\<forall>tok \<in> set (findall_ref CHR ''S'' is_sample_chr perline1). n_sep tok \<le> 1"
    and ss: "\<forall>tok \<in> set (findall_ref CHR ''S'' is_sample_chr perline1). star_safe tok"
  shows "rename_stage sq
           (concat (map (sample_prologue ssc) (rev sq))
            @ (if has_sub ''I$'' perline then info_prologue info_col info_keys else [])
            @ U) =
         (case rename_stage sq U of
            Inl e \<Rightarrow> Inl e
          | Inr U' \<Rightarrow>
              Inr (concat (map (sample_prologue ssc) (rev sq))
                   @ (if has_sub ''I$'' perline then info_prologue info_col info_keys else [])
                   @ U'))"
proof -
  define SP where "SP = concat (map (sample_prologue ssc) (rev sq))"
  define AP where "AP = (if has_sub ''I$'' perline then info_prologue info_col info_keys else [])"
  have nd: "\<forall>s \<in> set (rev sq). CHR ''$'' \<notin> set (name_raw s) \<and> CHR ''$'' \<notin> set (field s) \<and>
             CHR ''$'' \<notin> set (the (name_clean s))"
    using le it sample_of_no_dollar by (auto simp: sq valid_iter_def)
  from concat_prologues_no_pair [OF nd, of ssc]
  have sp: "no_pair CHR ''S'' CHR ''$'' CHR '' '' SP" and spl: "last (CHR '' '' # SP) = CHR '' ''"
    by (simp_all add: SP_def)
  have kd: "\<forall>k \<in> set info_keys. CHR ''$'' \<notin> set k"
    using info_stage_text [OF it i] findall_ref_cls [of _ "CHR ''I''" isword perline]
      word_no_dollar by (auto simp: list_all_iff)
  have ap: "no_pair CHR ''S'' CHR ''$'' CHR '' '' AP" and apl: "last (CHR '' '' # AP) = CHR '' ''"
    using info_prologue_no_pair [OF kd, of "CHR ''S''" "CHR '' ''" info_col]
    by (simp_all add: AP_def info_prologue_last)
  have np: "no_pair CHR ''S'' CHR ''$'' CHR '' '' (SP @ AP)"
    using sp ap spl by (simp add: no_pair_append del: last.simps)
  have lp: "last (CHR '' '' # SP @ AP) \<noteq> CHR ''S''"
    unfolding last_Cons_append [of _ SP AP] spl apl by simp
  have sc: "\<forall>s \<in> set sq. star_cond s"
    using ss star_safe_cond it by (auto simp: sq valid_iter_def)
  from rename_stage_skip [OF sc np lp, of U]
  show ?thesis
    unfolding SP_def [symmetric] AP_def [symmetric] by (simp split: sum.splits)
qed

subsection \<open>A reset statement and the scan of its key\<close>

lemma reset_and_scan:
  assumes "vawk ev debug header var info_col (raw # rest) vcf_file w = (w', Inr u)"
    and "valid_iter (set_iter ev)"
    and "parse raw = Inr (begin, perline, end)"
    and "info_stage ev info_col perline = Inr (info_keys, perline1)"
    and "sq = map sample_of (set_iter ev (findall_ref CHR ''S'' is_sample_chr perline1))"
    and "k \<in> set (findall_ref CHR ''I'' isword perline)"
  shows \<open>\<exists>pre post a b body.
       concat (map sample_reset (rev sq)) @ concat (map info_reset (rev info_keys)) =
         pre @ info_reset k @ post \<and>
       info_prologue info_col info_keys = a @ info_snippet k @ b \<and>
       rename_stage sq
         (concat (map (sample_prologue (info_col + 2)) (rev sq))
          @ (a @ info_snippet k @ b) @ info_renamed info_keys perline) = Inr body \<and>
       spawned w' = spawned w @
         [[''gawk''] @ concat (map (\<lambda>v. [''-v'', v]) var) @
          [''BEGIN {FS="'' @ [bslash] @ ''t"; OFS="'' @ [bslash] @ ''t"; '' @ begin @ ''} {''
           @ header_open header (info_col + 2) @ format_split (info_col + 1)
           @ pre @ info_reset k @ post
           @ body @ ''}} END {'' @ end @ ''}'',
           vcf_file]] \<and>
       ((\<forall>tok \<in> set (findall_ref CHR ''S'' is_sample_chr perline1). star_safe tok) \<longrightarrow>
        (\<exists>user. body = concat (map (sample_prologue (info_col + 2)) (rev sq))
                  @ (a @ info_snippet k @ b) @ user))\<close>
proof -
  from vawk_spawn [OF assms(1-5)]
  obtain body where le: "\<forall>tok \<in> set (findall_ref CHR ''S'' is_sample_chr perline1). n_sep tok \<le> 1"
    and b: "rename_stage sq
         (concat (map (sample_prologue (info_col + 2)) (rev sq))
          @ (if has_sub ''I$'' perline then info_prologue info_col info_keys else [])
          @ info_renamed info_keys perline) = Inr body"
    and s: \<open>spawned w' = spawned w @
         [[''gawk''] @ concat (map (\<lambda>v. [''-v'', v]) var) @
          [''BEGIN {FS="'' @ [bslash] @ ''t"; OFS="'' @ [bslash] @ ''t"; '' @ begin @ ''} {''
           @ header_open header (info_col + 2) @ format_split (info_col + 1)
           @ concat (map sample_reset (rev sq)) @ concat (map info_reset (rev info_keys))
           @ body @ ''}} END {'' @ end @ ''}'',
           vcf_file]]\<close>
    by blast
  have kk: "k \<in> set info_keys" using info_stage_text [OF assms(2,4)] assms(6) by simp
  have "findall_ref CHR ''I'' isword perline \<noteq> []" using assms(6) by auto
  then have "has_sub [CHR ''I'', CHR ''$''] perline" by (rule findall_ref_has_sub)
  then have hs: "has_sub ''I$'' perline" by simp
  from resets_split [OF kk, of sq] obtain pre post
    where rs: "concat (map sample_reset (rev sq)) @ concat (map info_reset (rev info_keys)) =
         pre @ info_reset k @ post" by blast
  from info_prologue_split [OF kk, of info_col] obtain a b
    where ap: "info_prologue info_col info_keys = a @ info_snippet k @ b" by blast
  have b': "rename_stage sq
         (concat (map (sample_prologue (info_col + 2)) (rev sq))
          @ (a @ info_snippet k @ b) @ info_renamed info_keys perline) = Inr body"
    using b hs ap by simp
  have s': \<open>spawned w' = spawned w @
         [[''gawk''] @ concat (map (\<lambda>v. [''-v'', v]) var) @
          [''BEGIN {FS="'' @ [bslash] @ ''t"; OFS="'' @ [bslash] @ ''t"; '' @ begin @ ''} {''
           @ header_open header (info_col + 2) @ format_split (info_col + 1)
           @ pre @ info_reset k @ post
           @ body @ ''}} END {'' @ end @ ''}'',
           vcf_file]]\<close>
  proof -
    have "concat (map sample_reset (rev sq)) @ concat (map info_reset (rev info_keys)) @ X =
          pre @ info_reset k @ post @ X" for X
      using rs by (metis append.assoc)
    with s show ?thesis by simp
  qed
  have "\<exists>user. body = concat (map (sample_prologue (info_col + 2)) (rev sq))
                  @ (a @ info_snippet k @ b) @ user"
    if ss: "\<forall>tok \<in> set (findall_ref CHR ''S'' is_sample_chr perline1). star_safe tok"
    using b [unfolded prologues_kept [OF assms(2,4,5) le ss]] hs ap
    by (auto split: sum.splits)
  with rs ap b' s' show ?thesis by blast
qed

subsection \<open>Segment extraction\<close>

text \<open>
  C1, as the code has it. When the braces of a BEGIN block, or of an END block of the text
  left after the BEGIN block is removed, never bring the count back to zero, \<open>parse\<close>
  fails with Python's IndexError: the loop reads \<open>raw[b]\<close> at \<open>b = len(raw)\<close>, and
  \<open>parse\<close> catches AttributeError only. The source has no UnbalancedBlock error.
\<close>

theorem parse_unbalanced_IndexError:
  assumes "(re_search_opener ''BEGIN'' raw = Some i \<and> unclosed raw (i + 5)) \<or>
           (get_block ''BEGIN'' raw 0 = Inr (begin, raw1, op_brace1) \<and>
            re_search_opener ''END'' raw1 = Some k \<and> unclosed raw1 (k + 3))"
  shows "parse raw = Inl IndexError"
  using assms
proof (elim disjE conjE)
  assume "re_search_opener ''BEGIN'' raw = Some i" and "unclosed raw (i + 5)"
  then have "get_block ''BEGIN'' raw 0 = Inl IndexError"
    using get_block_unclosed [of "''BEGIN''" raw i "i + 5"] by simp
  then show ?thesis by (simp add: parse_def)
next
  assume b: "get_block ''BEGIN'' raw 0 = Inr (begin, raw1, op_brace1)"
    and e: "re_search_opener ''END'' raw1 = Some k" and u: "unclosed raw1 (k + 3)"
  from b have "op_brace1 = 0" by (rule get_block_counter)
  moreover have "get_block ''END'' raw1 0 = Inl IndexError"
    using get_block_unclosed [of "''END''" raw1 k "k + 3"] e u by simp
  ultimately show ?thesis using b by (simp add: parse_def)
qed

theorem parse_unbalanced_IndexError_witness:
  "re_search_opener ''BEGIN'' ''BEGIN { x = 1'' = Some 0 \<and> unclosed ''BEGIN { x = 1'' (0 + 5) \<and>
   parse ''BEGIN { x = 1'' = Inl IndexError"
proof -
  have h1: "re_search_opener ''BEGIN'' ''BEGIN { x = 1'' = Some 0" by code_simp
  have h2: "unclosed ''BEGIN { x = 1'' (0 + 5)" by code_simp
  from parse_unbalanced_IndexError [OF disjI1 [OF conjI [OF h1 h2]]]
  have "parse ''BEGIN { x = 1'' = Inl IndexError" .
  with h1 h2 show ?thesis by blast
qed

text \<open>
  C1 as stated asks for a scan that stops at the end of the text and reports a structured
  UnbalancedBlock error. On \<open>BEGIN {\<close> the loop arrives at index 7, the length of the
  text, with the counter at 1, and the read at that index raises IndexError.
\<close>

theorem parse_unbalanced_counterexample:
  "length ''BEGIN {'' = 7 \<and> scan_block ''BEGIN {'' 7 1 = Inl IndexError \<and>
   parse ''BEGIN {'' = Inl IndexError"
  by code_simp

text \<open>
  C8. When the BEGIN block closes and the END block of the remaining text closes, \<open>parse\<close>
  returns, and its \<open>perline\<close> is made from the text \<open>raw2\<close> left after both spans are
  removed: \<open>raw2\<close> is trimmed; if the trimmed text begins with \<open>{\<close> and ends with \<open>}\<close>
  the two are stripped, otherwise it is wrapped as \<open>if (...) print ; \<close>.
\<close>

theorem parse_perline:
  assumes "remove_block ''BEGIN'' raw = Some raw1" and "remove_block ''END'' raw1 = Some raw2"
  shows "\<exists>begin end. parse raw =
           Inr (begin,
                (if prefix ''{'' (strip raw2) \<and> suffix ''}'' (strip raw2)
                 then inner (strip raw2)
                 else ''if ('' @ strip raw2 @ '') print ; ''),
                end)"
proof -
  from get_block_remove_block [OF assms(1)]
  obtain bg where b: "get_block ''BEGIN'' raw 0 = Inr (bg, raw1, 0)" by blast
  from get_block_remove_block [OF assms(2)]
  obtain en where e: "get_block ''END'' raw1 0 = Inr (en, raw2, 0)" by blast
  from b e show ?thesis by (simp add: parse_def wrap_perline_def Let_def)
qed

theorem parse_perline_witness:
  "remove_block ''BEGIN'' ''BEGIN {n=0} $1>5 END {print n}'' = Some '' $1>5 END {print n}'' \<and>
   remove_block ''END'' '' $1>5 END {print n}'' = Some '' $1>5 '' \<and>
   (\<exists>begin end. parse ''BEGIN {n=0} $1>5 END {print n}'' = Inr (begin, ''if ($1>5) print ; '', end))"
proof -
  have h1: "remove_block ''BEGIN'' ''BEGIN {n=0} $1>5 END {print n}'' = Some '' $1>5 END {print n}''"
    by code_simp
  have h2: "remove_block ''END'' '' $1>5 END {print n}'' = Some '' $1>5 ''"
    by code_simp
  have s: "strip '' $1>5 '' = ''$1>5''" by code_simp
  from parse_perline [OF h1 h2] s
  have "\<exists>begin end. parse ''BEGIN {n=0} $1>5 END {print n}'' = Inr (begin, ''if ($1>5) print ; '', end)"
    by simp
  with h1 h2 show ?thesis by blast
qed

text \<open>
  C9. The scan counts every brace. If the first index \<open>j\<close> at which the count of all
  braces after the keyword returns to zero lies inside a double-quoted string literal, the
  extracted block still ends at \<open>j\<close>, and the rest of the text starts right after it.
\<close>

theorem block_scan_ignores_quotes:
  assumes "re_search_opener kw raw = Some i"
    and "block_end raw (i + length kw) = Some j"
    and "in_string raw j"
  shows "get_block kw raw 0 =
           Inr (inner (strip (slice raw (i + length kw) (j + 1))), take i raw @ drop (j + 1) raw, 0)"
  using assms(1,2) by (rule get_block_closed)

theorem block_scan_ignores_quotes_witness:
  "re_search_opener ''BEGIN'' ''BEGIN { x = \"}\" } {print}'' = Some 0 \<and>
   block_end ''BEGIN { x = \"}\" } {print}'' (0 + length ''BEGIN'') = Some 13 \<and>
   in_string ''BEGIN { x = \"}\" } {print}'' 13 \<and>
   get_block ''BEGIN'' ''BEGIN { x = \"}\" } {print}'' 0 = Inr ('' x = \"'', ''\" } {print}'', 0)"
proof -
  have h1: "re_search_opener ''BEGIN'' ''BEGIN { x = \"}\" } {print}'' = Some 0" by code_simp
  have h2: "block_end ''BEGIN { x = \"}\" } {print}'' (0 + length ''BEGIN'') = Some 13" by code_simp
  have h3: "in_string ''BEGIN { x = \"}\" } {print}'' 13" by code_simp
  have v: "inner (strip (slice ''BEGIN { x = \"}\" } {print}'' (0 + length ''BEGIN'') (13 + 1))) = '' x = \"''"
    by code_simp
  have w: "take 0 ''BEGIN { x = \"}\" } {print}'' @ drop (13 + 1) ''BEGIN { x = \"}\" } {print}'' = ''\" } {print}''"
    by code_simp
  from block_scan_ignores_quotes [OF h1 h2 h3] v w
  have "get_block ''BEGIN'' ''BEGIN { x = \"}\" } {print}'' 0 = Inr ('' x = \"'', ''\" } {print}'', 0)"
    by simp
  with h1 h2 h3 show ?thesis by blast
qed

subsection \<open>Execution\<close>

text \<open>
  C2, as the code has it. \<open>vawk\<close> starts the child and reads its output; it never waits
  for the child and never reads its exit status, and \<open>main\<close> returns \<open>None\<close>. So when
  \<open>main\<close> returns, or ends with an \<open>IOError\<close> whose \<open>errno\<close> is 32, the exit status is 0,
  and it is 0 as well in any surroundings \<open>ev'\<close> that differ from \<open>ev\<close> only in the
  statuses the children exit with.
\<close>

theorem exit_status_ignores_child:
  assumes "set_iter ev' = set_iter ev"
    and "\<forall>cmd. run_cmd ev' cmd = map_sum id (\<lambda>p. p\<lparr>returncode := rc p\<rparr>) (run_cmd ev cmd)"
    and "main ev a w = (w', r)"
    and "r = Inr () \<or> r = Inl (IOError 32)"
  shows "script ev a w = (w', 0) \<and> script ev' a w = (w', 0)"
proof -
  have "main ev' a = main ev a"
    using assms(1,2) by (simp add: main_def vawk_returncode [of ev' ev rc])
  then have "script ev' a w = script ev a w" by (simp add: script_def)
  moreover have "script ev a w = (w', 0)"
    using assms(3,4) by (auto simp: script_def)
  ultimately show ?thesis by simp
qed

theorem exit_status_ignores_child_witness:
  "set_iter (fixed_env [] 3) = set_iter (fixed_env [] 0) \<and>
   (\<forall>cmd. run_cmd (fixed_env [] 3) cmd =
      map_sum id (\<lambda>p. p\<lparr>returncode := 3\<rparr>) (run_cmd (fixed_env [] 0) cmd)) \<and>
   snd (main (fixed_env [] 0) (plain_args ''{print}'') quiet_world) = Inr () \<and>
   snd (script (fixed_env [] 3) (plain_args ''{print}'') quiet_world) = 0"
proof -
  have h1: "set_iter (fixed_env [] 3) = set_iter (fixed_env [] 0)"
    by (simp add: fixed_env_def)
  have h2: "\<forall>cmd. run_cmd (fixed_env [] 3) cmd =
      map_sum id (\<lambda>p. p\<lparr>returncode := 3\<rparr>) (run_cmd (fixed_env [] 0) cmd)"
    by (simp add: fixed_env_def)
  have r: "snd (main (fixed_env [] 0) (plain_args ''{print}'') quiet_world) = Inr ()"
    by code_simp
  then have h3: "main (fixed_env [] 0) (plain_args ''{print}'') quiet_world =
      (fst (main (fixed_env [] 0) (plain_args ''{print}'') quiet_world), Inr ())"
    by (simp add: prod_eq_iff)
  from exit_status_ignores_child [OF h1 h2 h3]
  have "snd (script (fixed_env [] 3) (plain_args ''{print}'') quiet_world) = 0" by simp
  with h1 h2 r show ?thesis by blast
qed

text \<open>
  C2 as stated makes the exit status of the child the exit status of the program. Here
  the child exits with 3 and the program with 0.
\<close>

theorem exit_status_counterexample:
  "snd (script (fixed_env [] 3) (plain_args ''{print}'') quiet_world) = 0"
  by code_simp

text \<open>
  C3 does not hold of the code. The lines read from the child are \<open>bytes\<close> objects, and
  \<open>print\<close> writes \<open>str\<close> of a \<open>bytes\<close> object, which is its \<open>repr\<close>: the line
  \<open>chr1<TAB>100\<close> of the child comes out as \<open>b'chr1\t100'\<close>, with the tab written as a
  backslash and a \<open>t\<close>.
\<close>

theorem engine_line_printed_as_repr:
  "stdout (fst (script (fixed_env (''chr1'' @ [CHR 0x09] @ ''100'' @ [newline]) 0)
                  (plain_args ''{print $1,$2}'') quiet_world)) =
   ''b'' @ [CHR 0x27] @ ''chr1'' @ [bslash] @ ''t100'' @ [CHR 0x27] @ [newline]"
  by code_simp

subsection \<open>Sample references\<close>

text \<open>
  What \<open>Sample\<close> makes of a token \<open>tok\<close> that the scan for sample references finds in
  the per-line text, when standard output takes what is written. With no separator the
  whole token is the name and the field is \<open>ALL\<close>; with one separator the name is the
  text before it and the field the text after it; with more than one the program exits
  with status 1, starts no child, and writes nothing after the message
  \<open>Error: format should be S$[ID]$[FMT]\<close>, which is all it writes unless \<open>--debug\<close>
  is given (the lines \<open>pre\<close> are then those of \<open>--debug\<close>).
\<close>

lemma sample_reference_forms:
  assumes "valid_iter (set_iter ev)" and "sink_room w = None"
    and "args_cmd a = raw # rest"
    and "parse raw = Inr (begin, perline, end)"
    and "info_stage ev (args_info_col a) perline = Inr (info_keys, perline')"
    and "tok \<in> set (findall_ref CHR ''S'' is_sample_chr perline')"
  shows "(n_sep tok = 0 \<longrightarrow>
            Sample_init tok w =
              (w, Inr \<lparr>string_raw = tok, name_raw = tok, name_clean = None,
                       name_escaped = None, field = ''ALL''\<rparr>)) \<and>
         (n_sep tok = 1 \<longrightarrow>
            Sample_init tok w =
              (w, Inr \<lparr>string_raw = tok, name_raw = takeWhile (\<lambda>c. c \<noteq> CHR ''$'') tok,
                       name_clean = None, name_escaped = None,
                       field = tl (dropWhile (\<lambda>c. c \<noteq> CHR ''$'') tok)\<rparr>)) \<and>
         (1 < n_sep tok \<longrightarrow>
            (\<exists>w' pre. script ev a w = (w', 1) \<and> spawned w' = spawned w \<and>
               stdout w' = stdout w @ pre @ error_line \<and> (\<not> args_debug a \<longrightarrow> pre = [])))"
proof (intro conjI impI)
  assume "n_sep tok = 0"
  then show "Sample_init tok w =
      (w, Inr \<lparr>string_raw = tok, name_raw = tok, name_clean = None,
               name_escaped = None, field = ''ALL''\<rparr>)"
    by (rule Sample_init_whole)
next
  assume "n_sep tok = 1"
  then show "Sample_init tok w =
      (w, Inr \<lparr>string_raw = tok, name_raw = takeWhile (\<lambda>c. c \<noteq> CHR ''$'') tok,
               name_clean = None, name_escaped = None,
               field = tl (dropWhile (\<lambda>c. c \<noteq> CHR ''$'') tok)\<rparr>)"
    by (rule Sample_init_subfield)
next
  assume bad: "1 < n_sep tok"
  define dbg where "dbg = ''begin: '' @ begin @ [newline] @ ''perline: '' @ perline @ [newline]
     @ ''end: '' @ end @ [newline]"
  define w1 where "w1 = (if args_debug a then w\<lparr>stdout := stdout w @ dbg\<rparr> else w)"
  define toks where "toks = set_iter ev (findall_ref CHR ''S'' is_sample_chr perline')"
  have q: "sink_room w1 = None" using assms(2) by (simp add: w1_def)
  have "tok \<in> set toks" using assms(1,6) by (simp add: toks_def valid_iter_mem)
  with bad have ex: "\<exists>tok \<in> set toks. 1 < n_sep tok" by blast
  from sample_loop_invalid [OF ex q, of "args_debug a" "[]"]
  obtain w' pre where r: "sample_loop (args_debug a) toks [] w1 = (w', Inl (SystemExit 1))"
    "stdout w' = stdout w1 @ pre @ error_line" "spawned w' = spawned w1"
    "\<not> args_debug a \<longrightarrow> pre = []"
    by blast
  have "vawk ev (args_debug a) (args_header a) (args_var a) (args_info_col a) (args_cmd a)
          (args_vcf a) w = (w', Inl (SystemExit 1))"
    unfolding assms(3) vawk_unfold [OF assms(4,5)]
    by (subst io_bind_def) (simp add: debug_prints_quiet [OF assms(2)] io_bind_def
        r(1) [unfolded w1_def dbg_def toks_def])
  then have s: "script ev a w = (w', 1)" by (simp add: script_def main_def)
  show "\<exists>w' pre. script ev a w = (w', 1) \<and> spawned w' = spawned w \<and>
          stdout w' = stdout w @ pre @ error_line \<and> (\<not> args_debug a \<longrightarrow> pre = [])"
  proof (cases "args_debug a")
    case True
    with r s show ?thesis
      by (intro exI [of _ w'] exI [of _ "dbg @ pre"]) (simp add: w1_def)
  next
    case False
    with r s show ?thesis
      by (intro exI [of _ w'] exI [of _ pre]) (simp add: w1_def)
  qed
qed

lemma sample_reference_forms_example:
  "valid_iter (set_iter (fixed_env [] 0)) \<and> sink_room quiet_world = None \<and>
   args_cmd (plain_args ''{ print S$A$B$C }'') = [''{ print S$A$B$C }''] \<and>
   parse ''{ print S$A$B$C }'' = Inr ([], '' print S$A$B$C '', []) \<and>
   info_stage (fixed_env [] 0) (args_info_col (plain_args ''{ print S$A$B$C }'')) '' print S$A$B$C ''
     = Inr ([], '' print S$A$B$C '') \<and>
   ''A$B$C'' \<in> set (findall_ref CHR ''S'' is_sample_chr '' print S$A$B$C '') \<and>
   1 < n_sep ''A$B$C'' \<and>
   snd (script (fixed_env [] 0) (plain_args ''{ print S$A$B$C }'') quiet_world) = 1 \<and>
   spawned (fst (script (fixed_env [] 0) (plain_args ''{ print S$A$B$C }'') quiet_world)) = [] \<and>
   stdout (fst (script (fixed_env [] 0) (plain_args ''{ print S$A$B$C }'') quiet_world)) = error_line"
proof -
  have h1: "valid_iter (set_iter (fixed_env [] 0))"
    by (simp add: fixed_env_def valid_iter_remdups)
  have h2: "sink_room quiet_world = None" by (simp add: quiet_world_def)
  have h3: "args_cmd (plain_args ''{ print S$A$B$C }'') = [''{ print S$A$B$C }'']"
    by (simp add: plain_args_def)
  have h4: "parse ''{ print S$A$B$C }'' = Inr ([], '' print S$A$B$C '', [])" by code_simp
  have h5: "info_stage (fixed_env [] 0) (args_info_col (plain_args ''{ print S$A$B$C }''))
     '' print S$A$B$C '' = Inr ([], '' print S$A$B$C '')" by code_simp
  have h6: "''A$B$C'' \<in> set (findall_ref CHR ''S'' is_sample_chr '' print S$A$B$C '')"
    by code_simp
  have h7: "1 < n_sep ''A$B$C''" by code_simp
  have d: "\<not> args_debug (plain_args ''{ print S$A$B$C }'')" by (simp add: plain_args_def)
  from sample_reference_forms [OF h1 h2 h3 h4 h5 h6] h7 d
  obtain w' where "script (fixed_env [] 0) (plain_args ''{ print S$A$B$C }'') quiet_world = (w', 1)"
    "spawned w' = spawned quiet_world" "stdout w' = stdout quiet_world @ error_line"
    by auto
  then have "snd (script (fixed_env [] 0) (plain_args ''{ print S$A$B$C }'') quiet_world) = 1"
    "spawned (fst (script (fixed_env [] 0) (plain_args ''{ print S$A$B$C }'') quiet_world)) = []"
    "stdout (fst (script (fixed_env [] 0) (plain_args ''{ print S$A$B$C }'') quiet_world)) = error_line"
    by (simp_all add: quiet_world_def)
  with h1 h2 h3 h4 h5 h6 h7 show ?thesis by blast
qed

text \<open>
  C4 does not hold of the code for a token with one separator whose subfield is named
  \<open>ALL\<close>. The code marks a whole-record reference by the field \<open>ALL\<close>, and \<open>Sample\<close>
  gives the token \<open>NA$ALL\<close> this very field. So for \<open>{ print S$NA$ALL }\<close> the program
  handed to \<open>gawk\<close> has the whole-record prologue of \<open>NA\<close>, not the subfield prologue,
  and the reference \<open>S$NA$ALL\<close> is left in the text as it was typed: the pattern of the
  whole-record branch ends with \<open>look_ahead\<close>, which refuses the \<open>$\<close> after \<open>S$NA\<close>. For
  \<open>{ print S$NA$GT }\<close> the program has the subfield prologue and the variable
  \<open>SAMPLE_NA_GT\<close>, as the comment of the source says of a query \<open>S$ID$FMT\<close>.
\<close>

theorem subfield_ALL_taken_as_whole_record:
  \<open>findall_ref CHR ''S'' is_sample_chr '' print S$NA$ALL '' = [''NA$ALL''] \<and>
   n_sep ''NA$ALL'' = 1 \<and>
   Sample_init ''NA$ALL'' quiet_world =
     (quiet_world, Inr \<lparr>string_raw = ''NA$ALL'', name_raw = ''NA'', name_clean = None,
                         name_escaped = None, field = ''ALL''\<rparr>) \<and>
   script (fixed_env [] 0) (plain_args ''{ print S$NA$ALL }'') quiet_world =
     (quiet_world\<lparr>spawned :=
        [[''gawk'',
          ''BEGIN {FS="'' @ [bslash] @ ''t"; OFS="'' @ [bslash] @ ''t"; } {''
          @ ''if ($0~"^#") {if ($0!~"^##") { for (i=10;i<=NF;++i) SAMPLE[$i]=i; }; next} else {''
          @ ''split($9,fmt,":"); SAMPLE_NA_ALL=""; SAMPLE_NA_ALL=$SAMPLE["NA"]; ''
          @ '' print S$NA$ALL '' @ ''}} END {}'',
          ''-'']]\<rparr>, 0) \<and>
   script (fixed_env [] 0) (plain_args ''{ print S$NA$GT }'') quiet_world =
     (quiet_world\<lparr>spawned :=
        [[''gawk'',
          ''BEGIN {FS="'' @ [bslash] @ ''t"; OFS="'' @ [bslash] @ ''t"; } {''
          @ ''if ($0~"^#") {if ($0!~"^##") { for (i=10;i<=NF;++i) SAMPLE[$i]=i; }; next} else {''
          @ ''split($9,fmt,":"); SAMPLE_NA_GT=""; split($SAMPLE["NA"],samp,":"); ''
          @ ''for(i=1;i<=length(fmt);++i) { if (fmt[i]=="GT") { SAMPLE_NA_GT=samp[i]; break } } ''
          @ '' print SAMPLE_NA_GT '' @ ''}} END {}'',
          ''-'']]\<rparr>, 0)\<close>
  by code_simp

subsection \<open>Renaming\<close>

text \<open>
  C6, as the code has it. The pattern of a plain sample reference is the reference itself,
  character by character, followed by \<open>look_ahead\<close>: at an occurrence \<open>S$tok\<close> it matches
  the whole reference when what follows is not a letter, a digit, \<open>_\<close>, \<open>-\<close>, \<open>.\<close> or
  \<open>$\<close>, and does not match when it is, so it never matches inside a longer reference
  that extends it by one of these. The pattern of an annotation key has no
  \<open>look_ahead\<close>: at \<open>I$key\<close> it matches whatever follows, also inside a longer
  reference.
\<close>

theorem rename_matches:
  assumes "Sample_init tok w = (w', Inr s_obj)" and "plain_token tok" and "list_all isword key"
  shows "(\<exists>is. re_parse (sample_pattern (clean s_obj)) = Inr is \<and>
            (\<forall>st r. re_match True is st (''S$'' @ tok @ r) =
               (if r \<noteq> [] \<and> look_ahead (hd r) then None else Some (2 + length tok)))) \<and>
         (\<exists>is. re_parse (''I'' @ [bslash] @ ''$'' @ key) = Inr is \<and>
            (\<forall>st r. re_match False is st (''I$'' @ key @ r) = Some (2 + length key)))"
proof (intro conjI)
  have "re_match True (lits (''S$'' @ tok)) st (''S$'' @ tok @ r) =
          (if r \<noteq> [] \<and> look_ahead (hd r) then None else Some (2 + length tok))" for st r
    using re_match_literal [of True "''S$'' @ tok" st r] by simp
  with sample_pattern_lits [OF assms(1,2)]
  show "\<exists>is. re_parse (sample_pattern (clean s_obj)) = Inr is \<and>
          (\<forall>st r. re_match True is st (''S$'' @ tok @ r) =
             (if r \<noteq> [] \<and> look_ahead (hd r) then None else Some (2 + length tok)))"
    by blast
next
  have "re_match False (lits (''I$'' @ key)) st (''I$'' @ key @ r) = Some (2 + length key)" for st r
    using re_match_literal [of False "''I$'' @ key" st r] by simp
  with info_pattern_lits [OF assms(3)]
  show "\<exists>is. re_parse (''I'' @ [bslash] @ ''$'' @ key) = Inr is \<and>
          (\<forall>st r. re_match False is st (''I$'' @ key @ r) = Some (2 + length key))"
    by blast
qed

theorem rename_matches_witness:
  "Sample_init ''NA$GT'' quiet_world =
     (quiet_world, Inr \<lparr>string_raw = ''NA$GT'', name_raw = ''NA'', name_clean = None,
                         name_escaped = None, field = ''GT''\<rparr>) \<and>
   plain_token ''NA$GT'' \<and> list_all isword ''AF'' \<and>
   (\<exists>is. re_parse (sample_pattern (clean \<lparr>string_raw = ''NA$GT'', name_raw = ''NA'',
            name_clean = None, name_escaped = None, field = ''GT''\<rparr>)) = Inr is \<and>
         re_match True is True ''S$NA$GTX'' = None \<and>
         re_match True is True ''S$NA$GT,'' = Some 7) \<and>
   (\<exists>is. re_parse (''I'' @ [bslash] @ ''$'' @ ''AF'') = Inr is \<and>
         re_match False is True ''I$AFR'' = Some 4)"
proof -
  have h1: "Sample_init ''NA$GT'' quiet_world =
     (quiet_world, Inr \<lparr>string_raw = ''NA$GT'', name_raw = ''NA'', name_clean = None,
                         name_escaped = None, field = ''GT''\<rparr>)"
    by code_simp
  have h2: "plain_token ''NA$GT''" by code_simp
  have h3: "list_all isword ''AF''" by code_simp
  from rename_matches [OF h1 h2 h3]
  obtain is1 is2 where
    s: "re_parse (sample_pattern (clean \<lparr>string_raw = ''NA$GT'', name_raw = ''NA'',
            name_clean = None, name_escaped = None, field = ''GT''\<rparr>)) = Inr is1"
       "\<forall>st r. re_match True is1 st (''S$'' @ ''NA$GT'' @ r) =
          (if r \<noteq> [] \<and> look_ahead (hd r) then None else Some (2 + length ''NA$GT''))"
    and i: "re_parse (''I'' @ [bslash] @ ''$'' @ ''AF'') = Inr is2"
       "\<forall>st r. re_match False is2 st (''I$'' @ ''AF'' @ r) = Some (2 + length ''AF'')"
    by blast
  have x: "look_ahead CHR ''X''" and c: "\<not> look_ahead CHR '',''" by code_simp+
  from s(2) have "re_match True is1 True (''S$'' @ ''NA$GT'' @ ''X'') = None"
    using x by simp
  moreover from s(2) have "re_match True is1 True (''S$'' @ ''NA$GT'' @ '','') = Some 7"
    using c by simp
  moreover from i(2) have "re_match False is2 True (''I$'' @ ''AF'' @ ''R'') = Some 4"
    by simp
  ultimately show ?thesis using h1 h2 h3 s(1) i(1) by auto
qed

text \<open>
  C6 as stated fails for annotation references and for sample references with \<open>*\<close> or
  \<open>^\<close>. \<open>AF\<close> and \<open>AFR\<close> are two keys of the text, and the replacement of \<open>I$AF\<close>
  rewrites the occurrence of \<open>I$AFR\<close>. \<open>A\<close> and \<open>A^2\<close> are two sample tokens of the
  text, and the replacement of \<open>S$A\<close> rewrites the occurrence of \<open>S$A^2\<close>, since \<open>^\<close>
  is not in \<open>look_ahead\<close>.
\<close>

theorem rename_matches_counterexample:
  "findall_ref CHR ''I'' isword '' I$AF I$AFR '' = [''AF'', ''AFR''] \<and>
   re_sub False (''I'' @ [bslash] @ ''$AF'') ''INFO_AF'' '' I$AFR '' = Inr '' INFO_AFR '' \<and>
   findall_ref CHR ''S'' is_sample_chr '' S$A S$A^2 '' = [''A'', ''A^2''] \<and>
   re_sub True (''S'' @ [bslash] @ ''$A'') ''SAMPLE_A_ALL'' '' S$A^2 '' = Inr '' SAMPLE_A_ALL^2 ''"
  by code_simp

subsection \<open>The assembled program\<close>

text \<open>
  C7, as the code has it. When \<open>vawk\<close> gets as far as starting the child, the program
  text it hands to \<open>gawk\<close> is: \<open>BEGIN {FS="\t"; OFS="\t"; \<close>, the user's begin text and
  \<open>}\<close>; then, between \<open> {\<close> and \<open>} \<close>, the header dispatch \<open>if ($0~"^#") {...} else {\<close>
  around the per-record code, which is, in this order, the FORMAT split, the reset
  statements of the samples, the reset statements of the annotation keys, and the text
  \<open>body\<close>; then \<open>END {\<close>, the user's end text and \<open>}\<close>. \<open>body\<close> is what the renaming of the
  sample references makes of the sample prologues, the annotation prologue and the
  user's per-line text with its annotation references renamed, in this order. When the
  name of each sample reference is the wildcard or does not begin with \<open>*\<close>, the
  renaming leaves the prologues as they are, and \<open>body\<close> is the sample prologues, the
  annotation prologue and the user's text with all its references renamed.
\<close>

theorem assembled_program:
  assumes "vawk ev debug header var info_col (raw # rest) vcf_file w = (w', Inr u)"
    and "valid_iter (set_iter ev)"
    and "parse raw = Inr (begin, perline, end)"
    and "info_stage ev info_col perline = Inr (info_keys, perline1)"
    and "sq = map sample_of (set_iter ev (findall_ref CHR ''S'' is_sample_chr perline1))"
  shows \<open>\<exists>body.
       rename_stage sq
         (concat (map (sample_prologue (info_col + 2)) (rev sq))
          @ (if has_sub ''I$'' perline then info_prologue info_col info_keys else [])
          @ info_renamed info_keys perline) = Inr body \<and>
       spawned w' = spawned w @
         [[''gawk''] @ concat (map (\<lambda>v. [''-v'', v]) var) @
          [''BEGIN {FS="'' @ [bslash] @ ''t"; OFS="'' @ [bslash] @ ''t"; '' @ begin @ ''} {''
           @ header_open header (info_col + 2) @ format_split (info_col + 1)
           @ concat (map sample_reset (rev sq)) @ concat (map info_reset (rev info_keys))
           @ body @ ''}} END {'' @ end @ ''}'',
           vcf_file]] \<and>
       ((\<forall>tok \<in> set (findall_ref CHR ''S'' is_sample_chr perline1). star_safe tok) \<longrightarrow>
        (\<exists>user. rename_stage sq (info_renamed info_keys perline) = Inr user \<and>
           body = concat (map (sample_prologue (info_col + 2)) (rev sq))
                  @ (if has_sub ''I$'' perline then info_prologue info_col info_keys else [])
                  @ user))\<close>
proof -
  from vawk_spawn [OF assms]
  obtain body where le: "\<forall>tok \<in> set (findall_ref CHR ''S'' is_sample_chr perline1). n_sep tok \<le> 1"
    and b: "rename_stage sq
         (concat (map (sample_prologue (info_col + 2)) (rev sq))
          @ (if has_sub ''I$'' perline then info_prologue info_col info_keys else [])
          @ info_renamed info_keys perline) = Inr body"
    and s: \<open>spawned w' = spawned w @
         [[''gawk''] @ concat (map (\<lambda>v. [''-v'', v]) var) @
          [''BEGIN {FS="'' @ [bslash] @ ''t"; OFS="'' @ [bslash] @ ''t"; '' @ begin @ ''} {''
           @ header_open header (info_col + 2) @ format_split (info_col + 1)
           @ concat (map sample_reset (rev sq)) @ concat (map info_reset (rev info_keys))
           @ body @ ''}} END {'' @ end @ ''}'',
           vcf_file]]\<close>
    by blast
  have "\<exists>user. rename_stage sq (info_renamed info_keys perline) = Inr user \<and>
           body = concat (map (sample_prologue (info_col + 2)) (rev sq))
                  @ (if has_sub ''I$'' perline then info_prologue info_col info_keys else [])
                  @ user"
    if ss: "\<forall>tok \<in> set (findall_ref CHR ''S'' is_sample_chr perline1). star_safe tok"
    using b [unfolded prologues_kept [OF assms(2,4,5) le ss]] by (auto split: sum.splits)
  with b s show ?thesis by blast
qed

theorem assembled_program_witness:
  \<open>vawk (fixed_env [] 0) False False [] 8 [''BEGIN {n=0} { print I$AF, S$NA } END {print n}''] ''-''
      quiet_world =
     (fst (vawk (fixed_env [] 0) False False [] 8
             [''BEGIN {n=0} { print I$AF, S$NA } END {print n}''] ''-'' quiet_world), Inr ()) \<and>
   valid_iter (set_iter (fixed_env [] 0)) \<and>
   parse ''BEGIN {n=0} { print I$AF, S$NA } END {print n}'' =
     Inr (''n=0'', '' print I$AF, S$NA '', ''print n'') \<and>
   info_stage (fixed_env [] 0) 8 '' print I$AF, S$NA '' =
     Inr ([''AF''], info_prologue 8 [''AF''] @ '' print INFO_AF, S$NA '') \<and>
   [sample_of ''NA''] =
     map sample_of (set_iter (fixed_env [] 0)
       (findall_ref CHR ''S'' is_sample_chr (info_prologue 8 [''AF''] @ '' print INFO_AF, S$NA ''))) \<and>
   spawned (fst (vawk (fixed_env [] 0) False False [] 8
             [''BEGIN {n=0} { print I$AF, S$NA } END {print n}''] ''-'' quiet_world)) =
     [[''gawk'',
       ''BEGIN {FS="'' @ [bslash] @ ''t"; OFS="'' @ [bslash] @ ''t"; '' @ ''n=0'' @ ''} {''
       @ header_open False 10 @ format_split 9
       @ sample_reset (sample_of ''NA'') @ info_reset ''AF''
       @ sample_prologue 10 (sample_of ''NA'') @ info_prologue 8 [''AF'']
       @ '' print INFO_AF, SAMPLE_NA_ALL '' @ ''}} END {'' @ ''print n'' @ ''}'',
       ''-'']]\<close>
proof -
  let ?raw = "''BEGIN {n=0} { print I$AF, S$NA } END {print n}''"
  let ?w' = "fst (vawk (fixed_env [] 0) False False [] 8 [?raw] ''-'' quiet_world)"
  let ?p1 = "info_prologue 8 [''AF''] @ '' print INFO_AF, S$NA ''"
  have "snd (vawk (fixed_env [] 0) False False [] 8 [?raw] ''-'' quiet_world) = Inr ()"
    by code_simp
  then have h1: "vawk (fixed_env [] 0) False False [] 8 [?raw] ''-'' quiet_world = (?w', Inr ())"
    by (simp add: prod_eq_iff)
  have h2: "valid_iter (set_iter (fixed_env [] 0))"
    by (simp add: fixed_env_def valid_iter_remdups)
  have h3: "parse ?raw = Inr (''n=0'', '' print I$AF, S$NA '', ''print n'')" by code_simp
  have h4: "info_stage (fixed_env [] 0) 8 '' print I$AF, S$NA '' = Inr ([''AF''], ?p1)"
    by code_simp
  have f: "findall_ref CHR ''S'' is_sample_chr ?p1 = [''NA'']" by code_simp
  have h5: "[sample_of ''NA''] =
     map sample_of (set_iter (fixed_env [] 0) (findall_ref CHR ''S'' is_sample_chr ?p1))"
    unfolding f by (simp add: fixed_env_def)
  have ss: "\<forall>tok \<in> set (findall_ref CHR ''S'' is_sample_chr ?p1). star_safe tok"
    unfolding f by code_simp
  have i: "has_sub ''I$'' '' print I$AF, S$NA ''" by code_simp
  have r: "info_renamed [''AF''] '' print I$AF, S$NA '' = '' print INFO_AF, S$NA ''" by code_simp
  have u: "rename_stage [sample_of ''NA''] '' print INFO_AF, S$NA '' =
      Inr '' print INFO_AF, SAMPLE_NA_ALL ''" by code_simp
  from assembled_program [OF h1 h2 h3 h4 h5] ss
  obtain body user where
    s: \<open>spawned ?w' = spawned quiet_world @
         [[''gawk''] @ concat (map (\<lambda>v. [''-v'', v]) []) @
          [''BEGIN {FS="'' @ [bslash] @ ''t"; OFS="'' @ [bslash] @ ''t"; '' @ ''n=0'' @ ''} {''
           @ header_open False (8 + 2) @ format_split (8 + 1)
           @ concat (map sample_reset (rev [sample_of ''NA'']))
           @ concat (map info_reset (rev [''AF'']))
           @ body @ ''}} END {'' @ ''print n'' @ ''}'',
           ''-'']]\<close>
    and b: "rename_stage [sample_of ''NA''] (info_renamed [''AF''] '' print I$AF, S$NA '') = Inr user"
      "body = concat (map (sample_prologue (8 + 2)) (rev [sample_of ''NA'']))
                  @ (if has_sub ''I$'' '' print I$AF, S$NA '' then info_prologue 8 [''AF''] else [])
                  @ user"
    by blast
  from b(1) r u have "user = '' print INFO_AF, SAMPLE_NA_ALL ''" by simp
  with b(2) i have "body = sample_prologue 10 (sample_of ''NA'') @ info_prologue 8 [''AF'']
      @ '' print INFO_AF, SAMPLE_NA_ALL ''" by simp
  with s have "spawned ?w' =
     [[''gawk'',
       ''BEGIN {FS=\"'' @ [bslash] @ ''t\"; OFS=\"'' @ [bslash] @ ''t\"; '' @ ''n=0'' @ ''} {''
       @ header_open False 10 @ format_split 9
       @ sample_reset (sample_of ''NA'') @ info_reset ''AF''
       @ sample_prologue 10 (sample_of ''NA'') @ info_prologue 8 [''AF'']
       @ '' print INFO_AF, SAMPLE_NA_ALL '' @ ''}} END {'' @ ''print n'' @ ''}'',
       ''-'']]"
    by (simp add: quiet_world_def)
  with h1 h2 h3 h4 h5 show ?thesis by blast
qed

text \<open>
  C7 as stated puts the pieces of the per-record block in the order: FORMAT split, reset
  statements, annotation prologue, sample prologues, header dispatch, per-line text. In
  the program made for \<open>{ print I$AF, S$NA }\<close> the pieces do not occur in this order:
  the annotation prologue does not come before the sample prologue, and the header
  dispatch does not come after the FORMAT split. They occur in the order of the
  theorem above.
\<close>

theorem assembled_program_counterexample:
  \<open>\<not> occurs_in_order
       [format_split 9, sample_reset (sample_of ''NA''), info_reset ''AF'',
        info_prologue 8 [''AF''], sample_prologue 10 (sample_of ''NA''), header_open False 10,
        '' print INFO_AF, SAMPLE_NA_ALL '']
       (hd (spawned (fst (script (fixed_env [] 0) (plain_args ''{ print I$AF, S$NA }'')
                            quiet_world))) ! 1) \<and>
   \<not> occurs_in_order [info_prologue 8 [''AF''], sample_prologue 10 (sample_of ''NA'')]
       (hd (spawned (fst (script (fixed_env [] 0) (plain_args ''{ print I$AF, S$NA }'')
                            quiet_world))) ! 1) \<and>
   \<not> occurs_in_order [format_split 9, header_open False 10]
       (hd (spawned (fst (script (fixed_env [] 0) (plain_args ''{ print I$AF, S$NA }'')
                            quiet_world))) ! 1) \<and>
   occurs_in_order
       [header_open False 10, format_split 9, sample_reset (sample_of ''NA''), info_reset ''AF'',
        sample_prologue 10 (sample_of ''NA''), info_prologue 8 [''AF''],
        '' print INFO_AF, SAMPLE_NA_ALL '']
       (hd (spawned (fst (script (fixed_env [] 0) (plain_args ''{ print I$AF, S$NA }'')
                            quiet_world))) ! 1)\<close>
  by code_simp

subsection \<open>Annotation keys\<close>

text \<open>
  C5. Let \<open>k\<close> be a key that the scan for annotation references finds in the per-line
  text, and let \<open>vawk\<close> get as far as starting the child. In the program handed to
  \<open>gawk\<close>, the per-record code begins with the FORMAT split and the reset statements,
  one of which is \<open>INFO_k=""; \<close>; after all reset statements comes \<open>body\<close>, the text that
  the renaming of the sample references makes of the sample prologues, the annotation
  prologue, which holds the scan snippet of \<open>k\<close>, and the user's text. When the name of
  each sample reference is the wildcard or does not begin with \<open>*\<close>, the snippet stands
  in \<open>body\<close> as it was generated. So the statement that clears \<open>INFO_k\<close> is executed on
  every record before the scan that may set it. What the variable holds afterwards is
  the engine's execution of this text.
\<close>

theorem annotation_reset_precedes_scan:
  assumes "vawk ev debug header var info_col (raw # rest) vcf_file w = (w', Inr u)"
    and "valid_iter (set_iter ev)"
    and "parse raw = Inr (begin, perline, end)"
    and "info_stage ev info_col perline = Inr (info_keys, perline1)"
    and "sq = map sample_of (set_iter ev (findall_ref CHR ''S'' is_sample_chr perline1))"
    and "k \<in> set (findall_ref CHR ''I'' isword perline)"
  shows \<open>\<exists>pre post a b body.
       concat (map sample_reset (rev sq)) @ concat (map info_reset (rev info_keys)) =
         pre @ info_reset k @ post \<and>
       info_prologue info_col info_keys = a @ info_snippet k @ b \<and>
       rename_stage sq
         (concat (map (sample_prologue (info_col + 2)) (rev sq))
          @ (a @ info_snippet k @ b) @ info_renamed info_keys perline) = Inr body \<and>
       spawned w' = spawned w @
         [[''gawk''] @ concat (map (\<lambda>v. [''-v'', v]) var) @
          [''BEGIN {FS="'' @ [bslash] @ ''t"; OFS="'' @ [bslash] @ ''t"; '' @ begin @ ''} {''
           @ header_open header (info_col + 2) @ format_split (info_col + 1)
           @ pre @ info_reset k @ post
           @ body @ ''}} END {'' @ end @ ''}'',
           vcf_file]] \<and>
       ((\<forall>tok \<in> set (findall_ref CHR ''S'' is_sample_chr perline1). star_safe tok) \<longrightarrow>
        (\<exists>user. body = concat (map (sample_prologue (info_col + 2)) (rev sq))
                  @ (a @ info_snippet k @ b) @ user))\<close>
  using assms by (rule reset_and_scan)

theorem annotation_reset_precedes_scan_witness:
  \<open>vawk (fixed_env [] 0) False False [] 8 [''BEGIN {n=0} { print I$AF, S$NA } END {print n}''] ''-''
      quiet_world =
     (fst (vawk (fixed_env [] 0) False False [] 8
             [''BEGIN {n=0} { print I$AF, S$NA } END {print n}''] ''-'' quiet_world), Inr ()) \<and>
   valid_iter (set_iter (fixed_env [] 0)) \<and>
   parse ''BEGIN {n=0} { print I$AF, S$NA } END {print n}'' =
     Inr (''n=0'', '' print I$AF, S$NA '', ''print n'') \<and>
   info_stage (fixed_env [] 0) 8 '' print I$AF, S$NA '' =
     Inr ([''AF''], info_prologue 8 [''AF''] @ '' print INFO_AF, S$NA '') \<and>
   [sample_of ''NA''] =
     map sample_of (set_iter (fixed_env [] 0)
       (findall_ref CHR ''S'' is_sample_chr (info_prologue 8 [''AF''] @ '' print INFO_AF, S$NA ''))) \<and>
   ''AF'' \<in> set (findall_ref CHR ''I'' isword '' print I$AF, S$NA '') \<and>
   (\<exists>pre post a b user.
      info_prologue 8 [''AF''] = a @ info_snippet ''AF'' @ b \<and>
      spawned (fst (vawk (fixed_env [] 0) False False [] 8
             [''BEGIN {n=0} { print I$AF, S$NA } END {print n}''] ''-'' quiet_world)) =
        [[''gawk'',
          ''BEGIN {FS="'' @ [bslash] @ ''t"; OFS="'' @ [bslash] @ ''t"; '' @ ''n=0'' @ ''} {''
          @ header_open False 10 @ format_split 9
          @ pre @ ''INFO_AF=""; '' @ post
          @ sample_prologue 10 (sample_of ''NA'') @ (a @ info_snippet ''AF'' @ b) @ user
          @ ''}} END {'' @ ''print n'' @ ''}'',
          ''-'']])\<close>
proof -
  let ?raw = "''BEGIN {n=0} { print I$AF, S$NA } END {print n}''"
  let ?w' = "fst (vawk (fixed_env [] 0) False False [] 8 [?raw] ''-'' quiet_world)"
  let ?p1 = "info_prologue 8 [''AF''] @ '' print INFO_AF, S$NA ''"
  have "snd (vawk (fixed_env [] 0) False False [] 8 [?raw] ''-'' quiet_world) = Inr ()"
    by code_simp
  then have h1: "vawk (fixed_env [] 0) False False [] 8 [?raw] ''-'' quiet_world = (?w', Inr ())"
    by (simp add: prod_eq_iff)
  have h2: "valid_iter (set_iter (fixed_env [] 0))"
    by (simp add: fixed_env_def valid_iter_remdups)
  have h3: "parse ?raw = Inr (''n=0'', '' print I$AF, S$NA '', ''print n'')" by code_simp
  have h4: "info_stage (fixed_env [] 0) 8 '' print I$AF, S$NA '' = Inr ([''AF''], ?p1)"
    by code_simp
  have f: "findall_ref CHR ''S'' is_sample_chr ?p1 = [''NA'']" by code_simp
  have h5: "[sample_of ''NA''] =
     map sample_of (set_iter (fixed_env [] 0) (findall_ref CHR ''S'' is_sample_chr ?p1))"
    unfolding f by (simp add: fixed_env_def)
  have h6: "''AF'' \<in> set (findall_ref CHR ''I'' isword '' print I$AF, S$NA '')" by code_simp
  have ss: "\<forall>tok \<in> set (findall_ref CHR ''S'' is_sample_chr ?p1). star_safe tok"
    unfolding f by code_simp
  from annotation_reset_precedes_scan [OF h1 h2 h3 h4 h5 h6] ss
  obtain pre post a b body user where
    ap: "info_prologue 8 [''AF''] = a @ info_snippet ''AF'' @ b"
    and s: \<open>spawned ?w' = spawned quiet_world @
         [[''gawk''] @ concat (map (\<lambda>v. [''-v'', v]) []) @
          [''BEGIN {FS="'' @ [bslash] @ ''t"; OFS="'' @ [bslash] @ ''t"; '' @ ''n=0'' @ ''} {''
           @ header_open False (8 + 2) @ format_split (8 + 1)
           @ pre @ info_reset ''AF'' @ post
           @ body @ ''}} END {'' @ ''print n'' @ ''}'',
           ''-'']]\<close>
    and b: "body = concat (map (sample_prologue (8 + 2)) (rev [sample_of ''NA'']))
                  @ (a @ info_snippet ''AF'' @ b) @ user"
    by blast
  have ir: \<open>info_reset ''AF'' = ''INFO_AF=""; ''\<close> by (simp add: info_reset_def)
  from s have \<open>spawned ?w' =
        [[''gawk'',
          ''BEGIN {FS="'' @ [bslash] @ ''t"; OFS="'' @ [bslash] @ ''t"; '' @ ''n=0'' @ ''} {''
          @ header_open False 10 @ format_split 9
          @ pre @ ''INFO_AF=""; '' @ post
          @ sample_prologue 10 (sample_of ''NA'') @ (a @ info_snippet ''AF'' @ b) @ user
          @ ''}} END {'' @ ''print n'' @ ''}'',
          ''-'']]\<close>
    unfolding b ir by (simp add: quiet_world_def)
  with ap h1 h2 h3 h4 h5 h6 show ?thesis by blast
qed

text \<open>
  C10, as the code has it. If the per-line text holds \<open>I$\<close> after a character that is
  neither an identifier character nor \<open>$\<close>, and before a character that is not an
  identifier character or at the end of the text, then the scan collects the empty key;
  the annotation prologue then holds the scan snippet of the empty key, with the patterns
  \<open>"^="\<close> and \<open>""\<close> and the variable \<open>INFO_\<close>, and the reset statements of the program
  handed to \<open>gawk\<close> hold \<open>INFO_=""; \<close>.
\<close>

theorem empty_annotation_key:
  assumes "vawk ev debug header var info_col (raw # rest) vcf_file w = (w', Inr u)"
    and "valid_iter (set_iter ev)"
    and "parse raw = Inr (begin, perline, end)"
    and "info_stage ev info_col perline = Inr (info_keys, perline1)"
    and "sq = map sample_of (set_iter ev (findall_ref CHR ''S'' is_sample_chr perline1))"
    and "perline = pre @ c # ''I$'' @ post"
    and "\<not> isword c" and "c \<noteq> CHR ''$''" and "post = [] \<or> \<not> isword (hd post)"
  shows \<open>[] \<in> set (findall_ref CHR ''I'' isword perline) \<and> [] \<in> set info_keys \<and>
     (\<exists>x y a b body.
        info_prologue info_col info_keys =
          a @ ''if (x[i]~"^=" || x[i]=="") { split(x[i],info,"="); if (length(info)==1) { INFO_=1} else {INFO_=info[2]} }'' @ b \<and>
        perline1 = info_prologue info_col info_keys @ info_renamed info_keys perline \<and>
        rename_stage sq
          (concat (map (sample_prologue (info_col + 2)) (rev sq)) @ perline1) = Inr body \<and>
        spawned w' = spawned w @
          [[''gawk''] @ concat (map (\<lambda>v. [''-v'', v]) var) @
           [''BEGIN {FS="'' @ [bslash] @ ''t"; OFS="'' @ [bslash] @ ''t"; '' @ begin @ ''} {''
            @ header_open header (info_col + 2) @ format_split (info_col + 1)
            @ x @ ''INFO_=""; '' @ y
            @ body @ ''}} END {'' @ end @ ''}'',
            vcf_file]])\<close>
proof -
  have k: "[] \<in> set (findall_ref CHR ''I'' isword perline)"
    unfolding assms(6) using assms(7,8,9) by (rule findall_ref_empty_key)
  then have kk: "[] \<in> set info_keys" using info_stage_text [OF assms(2,4)] by simp
  have "findall_ref CHR ''I'' isword perline \<noteq> []" using k by auto
  then have "has_sub [CHR ''I'', CHR ''$''] perline" by (rule findall_ref_has_sub)
  then have p1: "perline1 = info_prologue info_col info_keys @ info_renamed info_keys perline"
    using info_stage_text [OF assms(2,4)] by simp
  have sn: \<open>info_snippet [] = ''if (x[i]~"^=" || x[i]=="") { split(x[i],info,"="); if (length(info)==1) { INFO_=1} else {INFO_=info[2]} }''\<close>
    by (simp add: info_snippet_def)
  have ir: \<open>info_reset [] = ''INFO_=""; ''\<close> by (simp add: info_reset_def)
  from reset_and_scan [OF assms(1-5) k]
  obtain x y a b body where
    ap: "info_prologue info_col info_keys = a @ info_snippet [] @ b"
    and r: "rename_stage sq
         (concat (map (sample_prologue (info_col + 2)) (rev sq))
          @ (a @ info_snippet [] @ b) @ info_renamed info_keys perline) = Inr body"
    and s: \<open>spawned w' = spawned w @
         [[''gawk''] @ concat (map (\<lambda>v. [''-v'', v]) var) @
          [''BEGIN {FS="'' @ [bslash] @ ''t"; OFS="'' @ [bslash] @ ''t"; '' @ begin @ ''} {''
           @ header_open header (info_col + 2) @ format_split (info_col + 1)
           @ x @ info_reset [] @ y
           @ body @ ''}} END {'' @ end @ ''}'',
           vcf_file]]\<close>
    by blast
  have r': "rename_stage sq
          (concat (map (sample_prologue (info_col + 2)) (rev sq)) @ perline1) = Inr body"
    using r unfolding p1 ap by simp
  from ap [unfolded sn] p1 r' s [unfolded ir] k kk show ?thesis by blast
qed

theorem empty_annotation_key_witness:
  \<open>vawk (fixed_env [] 0) False False [] 8 [''{ print I$ , S$NA }''] ''-'' quiet_world =
     (fst (vawk (fixed_env [] 0) False False [] 8 [''{ print I$ , S$NA }''] ''-'' quiet_world),
      Inr ()) \<and>
   valid_iter (set_iter (fixed_env [] 0)) \<and>
   parse ''{ print I$ , S$NA }'' = Inr ([], '' print I$ , S$NA '', []) \<and>
   info_stage (fixed_env [] 0) 8 '' print I$ , S$NA '' =
     Inr ([[]], info_prologue 8 [[]] @ '' print INFO_ , S$NA '') \<and>
   [sample_of ''NA''] =
     map sample_of (set_iter (fixed_env [] 0)
       (findall_ref CHR ''S'' is_sample_chr (info_prologue 8 [[]] @ '' print INFO_ , S$NA ''))) \<and>
   '' print I$ , S$NA '' = '' print'' @ CHR '' '' # ''I$'' @ '' , S$NA '' \<and>
   \<not> isword CHR '' '' \<and> CHR '' '' \<noteq> CHR ''$'' \<and> \<not> isword (hd '' , S$NA '') \<and>
   [] \<in> set (findall_ref CHR ''I'' isword '' print I$ , S$NA '') \<and>
   (\<exists>x y a b body.
      info_prologue 8 [[]] =
        a @ ''if (x[i]~"^=" || x[i]=="") { split(x[i],info,"="); if (length(info)==1) { INFO_=1} else {INFO_=info[2]} }'' @ b \<and>
      spawned (fst (vawk (fixed_env [] 0) False False [] 8 [''{ print I$ , S$NA }''] ''-''
                 quiet_world)) =
        [[''gawk'',
          ''BEGIN {FS="'' @ [bslash] @ ''t"; OFS="'' @ [bslash] @ ''t"; '' @ ''} {''
          @ header_open False 10 @ format_split 9
          @ x @ ''INFO_=""; '' @ y @ body @ ''}} END {'' @ ''}'',
          ''-'']])\<close>
proof -
  let ?raw = "''{ print I$ , S$NA }''"
  let ?w' = "fst (vawk (fixed_env [] 0) False False [] 8 [?raw] ''-'' quiet_world)"
  let ?p1 = "info_prologue 8 [[]] @ '' print INFO_ , S$NA ''"
  have "snd (vawk (fixed_env [] 0) False False [] 8 [?raw] ''-'' quiet_world) = Inr ()"
    by code_simp
  then have h1: "vawk (fixed_env [] 0) False False [] 8 [?raw] ''-'' quiet_world = (?w', Inr ())"
    by (simp add: prod_eq_iff)
  have h2: "valid_iter (set_iter (fixed_env [] 0))"
    by (simp add: fixed_env_def valid_iter_remdups)
  have h3: "parse ?raw = Inr ([], '' print I$ , S$NA '', [])" by code_simp
  have h4: "info_stage (fixed_env [] 0) 8 '' print I$ , S$NA '' = Inr ([[]], ?p1)"
    by code_simp
  have f: "findall_ref CHR ''S'' is_sample_chr ?p1 = [''NA'']" by code_simp
  have h5: "[sample_of ''NA''] =
     map sample_of (set_iter (fixed_env [] 0) (findall_ref CHR ''S'' is_sample_chr ?p1))"
    unfolding f by (simp add: fixed_env_def)
  have h6: "'' print I$ , S$NA '' = '' print'' @ CHR '' '' # ''I$'' @ '' , S$NA ''" by simp
  have h7: "\<not> isword CHR '' ''" by code_simp
  have h8: "CHR '' '' \<noteq> CHR ''$''" by simp
  have h9': "\<not> isword (hd '' , S$NA '')" by code_simp
  then have h9: "'' , S$NA '' = [] \<or> \<not> isword (hd '' , S$NA '')" by simp
  from empty_annotation_key [OF h1 h2 h3 h4 h5 h6 h7 h8 h9]
  obtain x y a b body where
    k: "[] \<in> set (findall_ref CHR ''I'' isword '' print I$ , S$NA '')"
    and ap: \<open>info_prologue 8 [[]] =
        a @ ''if (x[i]~"^=" || x[i]=="") { split(x[i],info,"="); if (length(info)==1) { INFO_=1} else {INFO_=info[2]} }'' @ b\<close>
    and s: \<open>spawned ?w' = spawned quiet_world @
          [[''gawk''] @ concat (map (\<lambda>v. [''-v'', v]) []) @
           [''BEGIN {FS="'' @ [bslash] @ ''t"; OFS="'' @ [bslash] @ ''t"; '' @ [] @ ''} {''
            @ header_open False (8 + 2) @ format_split (8 + 1)
            @ x @ ''INFO_=""; '' @ y
            @ body @ ''}} END {'' @ [] @ ''}'',
            ''-'']]\<close>
    by blast
  from s have \<open>spawned ?w' =
        [[''gawk'',
          ''BEGIN {FS="'' @ [bslash] @ ''t"; OFS="'' @ [bslash] @ ''t"; '' @ ''} {''
          @ header_open False 10 @ format_split 9
          @ x @ ''INFO_=""; '' @ y @ body @ ''}} END {'' @ ''}'',
          ''-'']]\<close>
    by (simp add: quiet_world_def)
  with ap k h1 h2 h3 h4 h5 h6 h7 h8 h9' show ?thesis by blast
qed

text \<open>
  C10 as stated also covers an \<open>I$\<close> that follows a \<open>$\<close>. In \<open> print I$I$ \<close> the second
  \<open>I$\<close> follows \<open>$\<close> and is followed by a space, but the scan has taken that \<open>$\<close> and
  the \<open>I\<close> after it into the match of the first reference, with the key \<open>I\<close>: the
  empty key is not collected, and the program has no variable \<open>INFO_\<close>.
\<close>

theorem empty_annotation_key_counterexample:
  \<open>'' print I$I$ '' = '' print I'' @ CHR ''$'' # ''I$'' @ '' '' \<and>
   \<not> isword CHR ''$'' \<and> \<not> isword (hd '' '') \<and>
   parse ''{ print I$I$ }'' = Inr ([], '' print I$I$ '', []) \<and>
   findall_ref CHR ''I'' isword '' print I$I$ '' = [''I''] \<and>
   \<not> has_sub ''INFO_=''
       (hd (spawned (fst (script (fixed_env [] 0) (plain_args ''{ print I$I$ }'')
                            quiet_world))) ! 1)\<close>
  by code_simp

end
